theory Spec2Isabelle
  imports Main "HOL-Library.Word"
begin

section \<open>C strings and machine values\<close>

text \<open>
  A C string is modelled by the list of its bytes in memory; position \<open>length s\<close>
  holds the terminating null, so reading \<open>s[i]\<close> is \<open>cstr_at s i\<close>. Sizes of type
  \<open>size_t\<close> are natural numbers (no object is larger than the address space), values of
  type \<open>ssize_t\<close> and \<open>int\<close> that can be negative are integers.
\<close>

definition NUL :: char where
  "NUL = CHR 0x00"

definition cstr_at :: "string \<Rightarrow> nat \<Rightarrow> char" where
  "cstr_at s i = (if i < length s then s ! i else NUL)"

definition strlen :: "string \<Rightarrow> nat" where
  "strlen s = length (takeWhile (\<lambda>c. c \<noteq> NUL) s)"

section \<open>The growable output buffer (class StackBuffer)\<close>

record StackBuffer =
  Buffer :: "char list"
  Pos :: nat
  Capacity :: nat
  OwnBuffer :: bool

text \<open>The bytes of a freshly allocated region are indeterminate; the model fills them with one fixed byte.\<close>

definition fresh_byte :: char where
  "fresh_byte = CHR 0xCD"

definition StackBuffer_new :: "char list \<Rightarrow> nat \<Rightarrow> StackBuffer" where
  "StackBuffer_new staticbuf staticbuf_size =
     \<lparr>Buffer = staticbuf, Pos = 0, Capacity = staticbuf_size, OwnBuffer = False\<rparr>"

definition Reserve :: "StackBuffer \<Rightarrow> nat \<Rightarrow> StackBuffer" where
  "Reserve sb bytes =
     (if Pos sb + bytes > Capacity sb then
        (let ncap0 = Capacity sb * 2;
             ncap = (if ncap0 < Pos sb + bytes then Pos sb + bytes else ncap0);
             nbuf = take (Pos sb) (Buffer sb) @ replicate (ncap - Pos sb) fresh_byte
         in sb\<lparr>Buffer := nbuf, Capacity := ncap, OwnBuffer := True\<rparr>)
      else sb)"

text \<open>
  \<open>MoveCurrentPos\<close> receives a \<open>size_t\<close> that the scanner computes from a negative
  \<open>ssize_t\<close>; the model takes the signed amount. The \<open>assert\<close> is the \<open>None\<close> branch.
\<close>

definition MoveCurrentPos :: "StackBuffer \<Rightarrow> int \<Rightarrow> StackBuffer option" where
  "MoveCurrentPos sb bytes =
     (let p = int (Pos sb) + bytes
      in if 0 \<le> p \<and> p \<le> int (Capacity sb) then Some (sb\<lparr>Pos := nat p\<rparr>) else None)"

text \<open>\<open>AddUninitialized\<close> returns the buffer and the offset of the region it hands out.\<close>

definition AddUninitialized :: "StackBuffer \<Rightarrow> nat \<Rightarrow> StackBuffer \<times> nat" where
  "AddUninitialized sb bytes =
     (let sb1 = Reserve sb bytes in (sb1\<lparr>Pos := Pos sb1 + bytes\<rparr>, Pos sb1))"

definition Add :: "StackBuffer \<Rightarrow> char \<Rightarrow> StackBuffer" where
  "Add sb c =
     (let (sb1, p) = AddUninitialized sb 1 in sb1\<lparr>Buffer := (Buffer sb1)[p := c]\<rparr>)"

definition RemainingSpace :: "StackBuffer \<Rightarrow> nat" where
  "RemainingSpace sb = Capacity sb - Pos sb"

text \<open>The bytes appended so far.\<close>

definition contents :: "StackBuffer \<Rightarrow> string" where
  "contents sb = take (Pos sb) (Buffer sb)"

definition sb_inv :: "StackBuffer \<Rightarrow> bool" where
  "sb_inv sb = (Pos sb \<le> Capacity sb \<and> length (Buffer sb) = Capacity sb)"

section \<open>Argument cells (class fmtarg)\<close>

text \<open>
  The tagged union, with the payload of each tag: an address, the bytes of a narrow string,
  the code units of a wide string, machine integers, and the bit pattern of a double.
\<close>

datatype fmtarg =
    TNull
  | TPtr nat
  | TCStr string
  | TWStr "nat list"
  | TI32 "32 word"
  | TU32 "32 word"
  | TI64 "64 word"
  | TU64 "64 word"
  | TDbl "64 word"

section \<open>Fast-path encoders\<close>

text \<open>
  An encoder is given a destination and a budget \<open>count\<close>; the model returns the
  \<open>int\<close> result and the destination after the call.
\<close>

subsection \<open>The platform primitive\<close>

text \<open>
  \<open>vsnprintf\<close> is not part of the repository. It is a parameter \<open>prim\<close> of the model:
  \<open>prim format_str arg\<close> is the complete text the platform produces for the one-specifier
  format string and the argument, or \<open>None\<close> when the platform reports an error.
\<close>

type_synonym primitive = "string \<Rightarrow> fmtarg \<Rightarrow> string option"

fun store_bytes :: "char list \<Rightarrow> nat \<Rightarrow> char list \<Rightarrow> char list" where
  "store_bytes destination p [] = destination"
| "store_bytes destination p (c # cs) = store_bytes (destination[p := c]) (Suc p) cs"

definition fmt_translate_snprintf_return_value :: "int \<Rightarrow> nat \<Rightarrow> int" where
  "fmt_translate_snprintf_return_value r count = (if r < 0 \<or> nat r \<ge> count then -1 else r)"

definition vsnprintf :: "primitive \<Rightarrow> char list \<Rightarrow> nat \<Rightarrow> string \<Rightarrow> fmtarg \<Rightarrow> int \<times> char list" where
  "vsnprintf prim destination count format_str arg =
     (case prim format_str arg of
        None \<Rightarrow> (-1, destination)
      | Some t \<Rightarrow>
          (int (length t),
           if count = 0 then destination
           else store_bytes destination 0 (take (count - 1) t @ [NUL])))"

definition fmt_snprintf :: "primitive \<Rightarrow> char list \<Rightarrow> nat \<Rightarrow> string \<Rightarrow> fmtarg \<Rightarrow> int \<times> char list" where
  "fmt_snprintf prim destination count format_str arg =
     (let (r, d) = vsnprintf prim destination count format_str arg
      in (fmt_translate_snprintf_return_value r count, d))"

text \<open>The C string held in a character array.\<close>

definition cstr_of :: "char list \<Rightarrow> string" where
  "cstr_of buf = takeWhile (\<lambda>c. c \<noteq> NUL) buf"

subsection \<open>format_string\<close>

function format_string_loop :: "nat \<Rightarrow> nat \<Rightarrow> string \<Rightarrow> char list \<Rightarrow> int \<times> char list" where
  "format_string_loop i count s destination =
     (if i < count then
        (if cstr_at s i = NUL then (int i, destination)
         else format_string_loop (Suc i) count s (destination[i := cstr_at s i]))
      else (-1, destination))"
  by pat_completeness auto
termination
  by (relation "measure (\<lambda>(i, count, s, d). count - i)") auto

declare format_string_loop.simps [simp del]

definition format_string :: "primitive \<Rightarrow> char list \<Rightarrow> nat \<Rightarrow> char list \<Rightarrow> string \<Rightarrow> int \<times> char list" where
  "format_string prim destination count format_str s =
     (if format_str ! 0 = CHR ''%'' \<and> format_str ! 1 = CHR ''s''
      then format_string_loop 0 count s destination
      else fmt_snprintf prim destination count (cstr_of format_str) (TCStr s))"

subsection \<open>format_integer\<close>

text \<open>C++ integer division truncates towards zero.\<close>

definition c_div :: "int \<Rightarrow> int \<Rightarrow> int" where
  "c_div a b = sgn a * sgn b * (\<bar>a\<bar> div \<bar>b\<bar>)"

definition lut :: "bool \<Rightarrow> string" where
  "lut upcase =
     (if upcase then ''ZYXWVUTSRQPONMLKJIHGFEDCBA9876543210123456789ABCDEFGHIJKLMNOPQRSTUVWXYZ''
      else ''zyxwvutsrqponmlkjihgfedcba9876543210123456789abcdefghijklmnopqrstuvwxyz'')"

text \<open>
  The do-while loop of \<open>format_integer\<close>: it returns the scratch array \<open>buf\<close>, least
  significant digit first, and the last \<open>tmp_value\<close>. The \<open>static_assert\<close> on the base
  is the guard. The values stay inside the range of \<open>TInt\<close>, so they are integers here.
\<close>

function format_integer_loop :: "int \<Rightarrow> bool \<Rightarrow> int \<Rightarrow> char list \<Rightarrow> char list \<times> int" where
  "format_integer_loop base upcase val buf =
     (if base < 10 \<or> base > 36 then (buf, val)
      else
        (let tmp_value = val;
             val1 = c_div val base;
             buf1 = buf @ [lut upcase ! nat (35 + (tmp_value - val1 * base))]
         in if val1 \<noteq> 0 then format_integer_loop base upcase val1 buf1
            else (buf1, tmp_value)))"
  by pat_completeness auto
termination
proof (relation "measure (\<lambda>(base, upcase, val, buf). nat \<bar>val\<bar>)")
  show "wf (measure (\<lambda>(base, upcase, val, buf). nat \<bar>val\<bar>))" by simp
next
  fix base :: int and upcase :: bool and val :: int and buf tmp_value val1 buf1
  assume b: "\<not> (base < 10 \<or> base > 36)" and t: "tmp_value = val"
    and v: "val1 = c_div val base" and nz: "val1 \<noteq> 0"
  have b2: "2 \<le> \<bar>base\<bar>" using b by simp
  have "0 \<le> \<bar>val\<bar> div \<bar>base\<bar>"
    by (simp add: pos_imp_zdiv_nonneg_iff div_int_pos_iff)
  then have q: "\<bar>val1\<bar> = \<bar>val\<bar> div \<bar>base\<bar>"
    unfolding v by (cases "val = 0"; cases "base = 0") (simp_all add: c_div_def abs_mult abs_sgn_eq)
  have "val \<noteq> 0" using v nz by (auto simp: c_div_def)
  then have "\<bar>val\<bar> div \<bar>base\<bar> < \<bar>val\<bar>"
    using b2 by (simp add: int_div_less_self)
  then show "((base, upcase, val1, buf1), (base, upcase, val, buf))
      \<in> measure (\<lambda>(base, upcase, val, buf). nat \<bar>val\<bar>)"
    using q by simp
qed

declare format_integer_loop.simps [simp del]

definition format_integer :: "char list \<Rightarrow> int \<Rightarrow> bool \<Rightarrow> int \<Rightarrow> int \<times> char list" where
  "format_integer destination tbase upcase val =
     (let (buf, tmp_value) = format_integer_loop tbase upcase val [];
          buf1 = (if tmp_value < 0 then buf @ [CHR ''-''] else buf)
      in (int (length buf1), store_bytes destination 0 (rev buf1)))"

definition format_int32 :: "primitive \<Rightarrow> char list \<Rightarrow> nat \<Rightarrow> char list \<Rightarrow> 32 word \<Rightarrow> int \<times> char list" where
  "format_int32 prim destination count format_str v =
     (let c = format_str ! 1 in
      if (c = CHR ''d'' \<or> c = CHR ''i'') \<and> count \<ge> 11
        then format_integer destination 10 False (sint v)
      else if c = CHR ''u'' \<and> count \<ge> 11
        then format_integer destination 10 False (uint v)
      else if c = CHR ''x'' \<and> count \<ge> 8
        then format_integer destination 16 False (uint v)
      else if c = CHR ''X'' \<and> count \<ge> 8
        then format_integer destination 16 True (uint v)
      else fmt_snprintf prim destination count (cstr_of format_str) (TI32 v))"

text \<open>The length modifiers of the build that is not Windows.\<close>

definition i64Prefix :: string where
  "i64Prefix = ''ll''"

definition wcharPrefix :: string where
  "wcharPrefix = ''l''"

definition wcharType :: char where
  "wcharType = CHR ''s''"

definition format_int64 :: "primitive \<Rightarrow> char list \<Rightarrow> nat \<Rightarrow> char list \<Rightarrow> 64 word \<Rightarrow> int \<times> char list" where
  "format_int64 prim destination count format_str v =
     (let isPlain = (format_str ! 1 = i64Prefix ! 0 \<and> format_str ! 2 = i64Prefix ! 1);
          c = format_str ! 4 in
      if isPlain \<and> (c = CHR ''d'' \<or> c = CHR ''i'') \<and> count \<ge> 20
        then format_integer destination 10 False (sint v)
      else if isPlain \<and> c = CHR ''u'' \<and> count \<ge> 20
        then format_integer destination 10 False (uint v)
      else if isPlain \<and> c = CHR ''x'' \<and> count \<ge> 16
        then format_integer destination 16 False (uint v)
      else if isPlain \<and> c = CHR ''X'' \<and> count \<ge> 16
        then format_integer destination 16 True (uint v)
      else fmt_snprintf prim destination count (cstr_of format_str) (TI64 v))"

section \<open>Specifier rewriting\<close>

text \<open>
  A write outside an array is undefined behaviour in C++; the model makes it a value, so
  that every such write is a branch of the model.
\<close>

datatype fault =
    ArgbufOutOfBounds int
  | ArgsOutOfBounds nat
  | StaticbufOverflow nat
  | AssertFailed
  | NullHookCalled

definition argbuf_arraysize :: nat where
  "argbuf_arraysize = 16"

definition argbuf_store :: "char list \<Rightarrow> nat \<Rightarrow> char \<Rightarrow> fault + char list" where
  "argbuf_store argbuf p c =
     (if p < argbuf_arraysize then Inr (argbuf[p := c]) else Inl (ArgbufOutOfBounds (int p)))"

fun argbuf_store_all :: "char list \<Rightarrow> nat \<Rightarrow> char list \<Rightarrow> fault + char list" where
  "argbuf_store_all argbuf p [] = Inr argbuf"
| "argbuf_store_all argbuf p (c # cs) =
     (case argbuf_store argbuf p c of
        Inl e \<Rightarrow> Inl e
      | Inr ab \<Rightarrow> argbuf_store_all ab (Suc p) cs)"

definition fmt_settype :: "char list \<Rightarrow> nat \<Rightarrow> string option \<Rightarrow> char \<Rightarrow> fault + char list" where
  "fmt_settype argbuf pos width type =
     (case width of
        Some w \<Rightarrow>
          (if pos = 0 \<or> pos > argbuf_arraysize then Inl (ArgbufOutOfBounds (int pos - 1))
           else
             (let c = argbuf ! (pos - 1);
                  pos1 = (if c = CHR ''l'' \<or> c = CHR ''h'' \<or> c = CHR ''w'' then pos - 1 else pos)
              in argbuf_store_all argbuf pos1 (w @ [type, NUL])))
      | None \<Rightarrow> argbuf_store_all argbuf pos [type, NUL])"

definition with_settype ::
  "fault + char list \<Rightarrow> (char list \<Rightarrow> int \<times> char list) \<Rightarrow> fault + (int \<times> char list \<times> char list)" where
  "with_settype st f =
     (case st of
        Inl e \<Rightarrow> Inl e
      | Inr ab \<Rightarrow> (let (r, d) = f ab in Inr (r, d, ab)))"

text \<open>The result is the \<open>int\<close> returned, the destination and the scratch array after the call.\<close>

definition fmt_output_with_snprintf ::
  "primitive \<Rightarrow> char list \<Rightarrow> char \<Rightarrow> char list \<Rightarrow> nat \<Rightarrow> nat \<Rightarrow> fmtarg
     \<Rightarrow> fault + (int \<times> char list \<times> char list)" where
  "fmt_output_with_snprintf prim outbuf fmt_type argbuf argbufsize outputSize arg =
     (let tokenint = (fmt_type \<in> set ''diouxX'');
          tokenreal = (fmt_type \<in> set ''eEfgGaA'')
      in case arg of
        TNull \<Rightarrow> Inr (0, outbuf, argbuf)
      | TPtr p \<Rightarrow>
          with_settype (fmt_settype argbuf argbufsize None (CHR ''p''))
            (\<lambda>ab. fmt_snprintf prim outbuf outputSize (cstr_of ab) arg)
      | TCStr s \<Rightarrow>
          with_settype (fmt_settype argbuf argbufsize (Some []) (CHR ''s''))
            (\<lambda>ab. format_string prim outbuf outputSize ab s)
      | TWStr ws \<Rightarrow>
          with_settype (fmt_settype argbuf argbufsize (Some wcharPrefix) wcharType)
            (\<lambda>ab. fmt_snprintf prim outbuf outputSize (cstr_of ab) arg)
      | TI32 v \<Rightarrow>
          with_settype
            (if fmt_type = CHR ''c'' then fmt_settype argbuf argbufsize (Some []) (CHR ''c'')
             else if tokenint then fmt_settype argbuf argbufsize (Some []) fmt_type
             else fmt_settype argbuf argbufsize (Some []) (CHR ''d''))
            (\<lambda>ab. format_int32 prim outbuf outputSize ab v)
      | TU32 v \<Rightarrow>
          with_settype
            (if tokenint then fmt_settype argbuf argbufsize (Some []) fmt_type
             else fmt_settype argbuf argbufsize (Some []) (CHR ''u''))
            (\<lambda>ab. format_int32 prim outbuf outputSize ab v)
      | TI64 v \<Rightarrow>
          with_settype
            (if tokenint then fmt_settype argbuf argbufsize (Some i64Prefix) fmt_type
             else fmt_settype argbuf argbufsize (Some i64Prefix) (CHR ''d''))
            (\<lambda>ab. format_int64 prim outbuf outputSize ab v)
      | TU64 v \<Rightarrow>
          with_settype
            (if tokenint then fmt_settype argbuf argbufsize (Some i64Prefix) fmt_type
             else fmt_settype argbuf argbufsize (Some i64Prefix) (CHR ''u''))
            (\<lambda>ab. format_int64 prim outbuf outputSize ab v)
      | TDbl d \<Rightarrow>
          with_settype
            (if tokenreal then fmt_settype argbuf argbufsize None fmt_type
             else fmt_settype argbuf argbufsize None (CHR ''g''))
            (\<lambda>ab. fmt_snprintf prim outbuf outputSize (cstr_of ab) arg))"

section \<open>The scanner (fmt_core)\<close>

text \<open>
  An escape hook receives the size of its destination and the argument; the model of a
  hook returns its result, read as \<open>ssize_t\<close>, and the bytes it stored from the start
  of the destination. Its contract forbids it to store more bytes than the destination
  holds; bytes past the destination are not modelled.
\<close>

type_synonym WriteSpecialFunc = "nat \<Rightarrow> fmtarg \<Rightarrow> int \<times> char list"

record fmt_context =
  Escape_Q :: "WriteSpecialFunc option"
  Escape_q :: "WriteSpecialFunc option"

record StrLenPair =
  Str :: "char list"
  Len :: nat
  Str_is_staticbuf :: bool

definition MaxOutputSize :: int where
  "MaxOutputSize = 1 * 1024 * 1024"

definition splice :: "char list \<Rightarrow> nat \<Rightarrow> char list \<Rightarrow> char list" where
  "splice buf off region = take off buf @ region @ drop (off + length region) buf"

text \<open>One attempt of the retry loop: the call that computes \<open>written\<close>.\<close>

definition write_attempt ::
  "fmt_context \<Rightarrow> primitive \<Rightarrow> char \<Rightarrow> char list \<Rightarrow> nat \<Rightarrow> fmtarg \<Rightarrow> char list \<Rightarrow> nat
     \<Rightarrow> fault + (int \<times> char list \<times> char list)" where
  "write_attempt cx prim c argbuf argbufsize arg outbuf outputSize =
     (if c = CHR ''q'' then
        (case Escape_q cx of
           None \<Rightarrow> Inl NullHookCalled
         | Some h \<Rightarrow> (let (r, bs) = h outputSize arg in Inr (r, store_bytes outbuf 0 bs, argbuf)))
      else if c = CHR ''Q'' then
        (case Escape_Q cx of
           None \<Rightarrow> Inl NullHookCalled
         | Some h \<Rightarrow> (let (r, bs) = h outputSize arg in Inr (r, store_bytes outbuf 0 bs, argbuf)))
      else fmt_output_with_snprintf prim outbuf c argbuf argbufsize outputSize arg)"

partial_function (option) retry_loop ::
  "fmt_context \<Rightarrow> primitive \<Rightarrow> char \<Rightarrow> nat \<Rightarrow> fmtarg \<Rightarrow> StackBuffer \<Rightarrow> char list \<Rightarrow> nat
     \<Rightarrow> (fault + StackBuffer \<times> char list) option" where
  "retry_loop cx prim c argbufsize arg output argbuf outputSize =
     (let (out1, off) = AddUninitialized output outputSize;
          outbuf = take outputSize (drop off (Buffer out1))
      in case write_attempt cx prim c argbuf argbufsize arg outbuf outputSize of
           Inl e \<Rightarrow> Some (Inl e)
         | Inr (written, outbuf1, argbuf1) \<Rightarrow>
             (let out2 = out1\<lparr>Buffer := splice (Buffer out1) off outbuf1\<rparr>
              in if written \<ge> 0 \<and> written < int outputSize then
                   (case MoveCurrentPos out2 (written - int outputSize) of
                      None \<Rightarrow> Some (Inl AssertFailed)
                    | Some out3 \<Rightarrow> Some (Inr (out3, argbuf1)))
                 else if int outputSize \<ge> MaxOutputSize then Some (Inr (out2, argbuf1))
                 else
                   (case MoveCurrentPos out2 (- int outputSize) of
                      None \<Rightarrow> Some (Inl AssertFailed)
                    | Some out3 \<Rightarrow> retry_loop cx prim c argbufsize arg out3 argbuf1 (outputSize * 2))))"

definition is_terminator :: "char \<Rightarrow> bool" where
  "is_terminator c = (c \<in> set ''aAcCdieEfgGHosSuxXpnvqQ'')"

fun Add_all :: "StackBuffer \<Rightarrow> char list \<Rightarrow> StackBuffer" where
  "Add_all sb [] = sb"
| "Add_all sb (c # cs) = Add_all (Add sb c) cs"

fun copy_spec :: "string \<Rightarrow> nat list \<Rightarrow> char list \<Rightarrow> nat \<Rightarrow> fault + char list \<times> nat" where
  "copy_spec fmt [] argbuf argbufsize = Inr (argbuf, argbufsize)"
| "copy_spec fmt (j # js) argbuf argbufsize =
     (if cstr_at fmt j = CHR ''*'' then copy_spec fmt js argbuf argbufsize
      else
        (case argbuf_store argbuf argbufsize (cstr_at fmt j) of
           Inl e \<Rightarrow> Inl e
         | Inr ab \<Rightarrow> copy_spec fmt js ab (Suc argbufsize)))"

function bulk_copy :: "string \<Rightarrow> nat \<Rightarrow> nat \<Rightarrow> StackBuffer \<Rightarrow> nat \<times> StackBuffer" where
  "bulk_copy fmt i stopAt output =
     (if i < stopAt \<and> cstr_at fmt i \<noteq> CHR ''%'' \<and> cstr_at fmt i \<noteq> NUL then
        bulk_copy fmt (Suc i) stopAt
          (output\<lparr>Buffer := (Buffer output)[Pos output := cstr_at fmt i], Pos := Pos output + 1\<rparr>)
      else (i, output))"
  by pat_completeness auto
termination
  by (relation "measure (\<lambda>(fmt, i, stopAt, output). stopAt - i)") auto

declare bulk_copy.simps [simp del]

text \<open>
  What stays fixed during one call of \<open>fmt_core\<close>: the context, the platform
  primitive, \<open>fmt\<close>, \<open>nargs\<close>, \<open>args\<close> and \<open>initial_sprintf_guessed_size\<close>.
\<close>

record core_env =
  e_context :: fmt_context
  e_prim :: primitive
  e_fmt :: string
  e_nargs :: int
  e_args :: "fmtarg list"
  e_guess :: nat

text \<open>
  The \<open>for\<close> loop of \<open>fmt_core\<close>, from position \<open>i\<close>. \<open>tokenstart\<close> is \<open>None\<close> for -1.
  The result is the output buffer and \<open>iarg\<close> at the end of the loop.
\<close>

partial_function (option) fmt_loop ::
  "core_env \<Rightarrow> nat \<Rightarrow> nat option \<Rightarrow> nat \<Rightarrow> StackBuffer \<Rightarrow> char list
     \<Rightarrow> (fault + StackBuffer \<times> nat) option" where
  "fmt_loop E i tokenstart iarg output argbuf =
     (if cstr_at (e_fmt E) i = NUL then Some (Inr (output, iarg))
      else
        (case tokenstart of
           Some ts \<Rightarrow>
             (let c = cstr_at (e_fmt E) i in
              if is_terminator c then
                (let no_args_remaining = (int iarg \<ge> e_nargs E);
                     spec_too_long = (i - ts \<ge> argbuf_arraysize - 1);
                     disallowed = (c = CHR ''n''
                                    \<or> (c = CHR ''q'' \<and> Escape_q (e_context E) = None)
                                    \<or> (c = CHR ''Q'' \<and> Escape_Q (e_context E) = None))
                 in if no_args_remaining \<or> spec_too_long \<or> disallowed then
                      fmt_loop E (Suc i) None iarg
                        (Add_all output (map (cstr_at (e_fmt E)) [ts..<Suc i])) argbuf
                    else
                      (case copy_spec (e_fmt E) [ts..<i] argbuf 0 of
                         Inl e \<Rightarrow> Some (Inl e)
                       | Inr (argbuf1, argbufsize) \<Rightarrow>
                           (if iarg \<ge> length (e_args E) then Some (Inl (ArgsOutOfBounds iarg))
                            else
                              Option.bind
                                (retry_loop (e_context E) (e_prim E) c argbufsize (e_args E ! iarg)
                                   output argbuf1 (e_guess E))
                                (\<lambda>r. case r of
                                   Inl e \<Rightarrow> Some (Inl e)
                                 | Inr (output1, argbuf2) \<Rightarrow>
                                     fmt_loop E (Suc i) None (Suc iarg) output1 argbuf2))))
              else if c = CHR ''%'' then
                fmt_loop E (Suc i) None iarg (Add output (CHR ''%'')) argbuf
              else fmt_loop E (Suc i) tokenstart iarg output argbuf)
         | None \<Rightarrow>
             (let stopAt = i + RemainingSpace output;
                  (i1, output1) = bulk_copy (e_fmt E) i stopAt output
              in if cstr_at (e_fmt E) i1 = CHR ''%'' then
                   fmt_loop E (Suc i1) (Some i1) iarg output1 argbuf
                 else if cstr_at (e_fmt E) i1 = NUL then Some (Inr (output1, iarg))
                 else fmt_loop E i1 None iarg (Reserve output1 1) argbuf)))"

text \<open>
  \<open>fmt_core\<close> with a caller-supplied region. \<open>memcpy\<close> into the region is checked
  against its size. The scratch array starts with indeterminate bytes.
\<close>

definition fmt_core_buf ::
  "fmt_context \<Rightarrow> primitive \<Rightarrow> string \<Rightarrow> int \<Rightarrow> fmtarg list \<Rightarrow> char list \<Rightarrow> nat
     \<Rightarrow> (fault + StrLenPair) option" where
  "fmt_core_buf cx prim fmt nargs args staticbuf staticbuf_size =
     (if nargs = 0 then
        (let len = strlen fmt in
         if staticbuf_size \<noteq> 0 \<and> len \<le> staticbuf_size + 1 then
           (if len + 1 > staticbuf_size then Some (Inl (StaticbufOverflow (len + 1)))
            else Some (Inr \<lparr>Str = store_bytes staticbuf 0 (take len fmt @ [NUL]), Len = len,
                            Str_is_staticbuf = True\<rparr>))
         else Some (Inr \<lparr>Str = take len fmt @ [NUL], Len = len, Str_is_staticbuf = False\<rparr>))
      else
        (let initial_sprintf_guessed_size = staticbuf_size div 4;
             output = StackBuffer_new staticbuf staticbuf_size
         in Option.bind
              (fmt_loop
                 \<lparr>e_context = cx, e_prim = prim, e_fmt = fmt, e_nargs = nargs, e_args = args,
                  e_guess = initial_sprintf_guessed_size\<rparr>
                 0 None 0 output (replicate argbuf_arraysize fresh_byte))
              (\<lambda>r. case r of
                 Inl e \<Rightarrow> Some (Inl e)
               | Inr (output1, iarg) \<Rightarrow>
                   (let output2 = Add output1 NUL
                    in Some (Inr \<lparr>Str = Buffer output2, Len = Pos output2 - 1,
                                   Str_is_staticbuf = (\<not> OwnBuffer output2)\<rparr>)))))"

text \<open>\<open>fmt_core\<close> returning \<open>std::string\<close>.\<close>

definition fmt_core :: "fmt_context \<Rightarrow> primitive \<Rightarrow> string \<Rightarrow> int \<Rightarrow> fmtarg list \<Rightarrow> (fault + string) option" where
  "fmt_core cx prim fmt nargs args =
     (let bufsize = 256;
          staticbuf = replicate bufsize fresh_byte
      in Option.bind (fmt_core_buf cx prim fmt nargs args staticbuf bufsize)
           (\<lambda>r. case r of
              Inl e \<Rightarrow> Some (Inl e)
            | Inr res \<Rightarrow> Some (Inr (take (Len res) (Str res)))))"

declare retry_loop.simps [code]
declare fmt_loop.simps [code]

text \<open>The context with no escape hook, as the convenience wrappers build it.\<close>

definition default_context :: fmt_context where
  "default_context = \<lparr>Escape_Q = None, Escape_q = None\<rparr>"

text \<open>A platform primitive that reports an error on every call.\<close>

definition no_primitive :: primitive where
  "no_primitive format_str arg = None"

section \<open>Notions used in the statements\<close>

text \<open>A character that the literal state of the scanner copies.\<close>

definition literal_char :: "char \<Rightarrow> bool" where
  "literal_char c = (c \<noteq> CHR ''%'' \<and> c \<noteq> NUL)"

text \<open>
  A result of the scanner respects the buffer invariant: it is not a failed \<open>assert\<close>, and
  a buffer it returns has its cursor within its capacity.
\<close>

definition good_result :: "fault + StackBuffer \<times> 'a \<Rightarrow> bool" where
  "good_result y = (case y of Inl e \<Rightarrow> e \<noteq> AssertFailed | Inr (out, x) \<Rightarrow> Pos out \<le> Capacity out)"

text \<open>
  The decimal representation of an integer, as the specification words it: the digits of the
  absolute value, most significant first, after a \<open>-\<close> when the value is negative.
\<close>

definition digit_char :: "nat \<Rightarrow> char" where
  "digit_char d = ''0123456789'' ! d"

function decimal_digits :: "nat \<Rightarrow> string" where
  "decimal_digits n =
     (if n < 10 then [digit_char n] else decimal_digits (n div 10) @ [digit_char (n mod 10)])"
  by pat_completeness auto
termination
  by (relation "measure (\<lambda>n. n)") auto

declare decimal_digits.simps [simp del]

definition decimal_representation :: "int \<Rightarrow> string" where
  "decimal_representation v =
     (if v < 0 then CHR ''-'' # decimal_digits (nat (- v)) else decimal_digits (nat v))"







section \<open>Basic properties of the buffer and of division\<close>

lemma Reserve_Pos [simp]: "Pos (Reserve sb n) = Pos sb"
  by (simp add: Reserve_def Let_def)

lemma Reserve_room: "Pos sb + n \<le> Capacity (Reserve sb n)"
  by (simp add: Reserve_def Let_def)

lemma abs_c_div: "\<bar>c_div a b\<bar> = \<bar>a\<bar> div \<bar>b\<bar>"
proof -
  have "0 \<le> \<bar>a\<bar> div \<bar>b\<bar>"
    by (simp add: pos_imp_zdiv_nonneg_iff div_int_pos_iff)
  then show ?thesis
    by (cases "a = 0"; cases "b = 0") (simp_all add: c_div_def abs_mult abs_sgn_eq)
qed

section \<open>Properties of C strings\<close>

lemma strlen_le: "strlen s \<le> length s"
  by (simp add: strlen_def length_takeWhile_le)

lemma cstr_at_before_strlen: "i < strlen s \<Longrightarrow> cstr_at s i = s ! i \<and> s ! i \<noteq> NUL"
proof -
  assume a: "i < strlen s"
  then have "i < length (takeWhile (\<lambda>c. c \<noteq> NUL) s)" by (simp add: strlen_def)
  then have "s ! i \<noteq> NUL"
    by (metis (mono_tags, lifting) nth_mem set_takeWhileD takeWhile_nth)
  moreover have "i < length s" using a strlen_le [of s] by simp
  ultimately show ?thesis by (simp add: cstr_at_def)
qed


lemma strlen_no_NUL: "NUL \<notin> set s \<Longrightarrow> strlen s = length s"
  unfolding strlen_def by (induction s) auto

section \<open>The plain-string encoder\<close>

lemma format_string_loop_short:
  "i \<le> count \<Longrightarrow> count \<le> strlen s \<Longrightarrow> count \<le> length d \<Longrightarrow>
   format_string_loop i count s d = (- 1, take i d @ take (count - i) (drop i s) @ drop count d)"
proof (induction i count s d rule: format_string_loop.induct)
  case (1 i count s d)
  show ?case
  proof (cases "i < count")
    case False
    with "1.prems" show ?thesis by (simp add: format_string_loop.simps)
  next
    case True
    then have lt: "i < strlen s" using "1.prems" by simp
    then have nz: "cstr_at s i = s ! i" "s ! i \<noteq> NUL" using cstr_at_before_strlen by auto
    have il: "i < length s" using lt strlen_le [of s] by simp
    have ih: "format_string_loop (Suc i) count s (d[i := cstr_at s i])
        = (- 1, take (Suc i) (d[i := cstr_at s i]) @ take (count - Suc i) (drop (Suc i) s)
              @ drop count (d[i := cstr_at s i]))"
      using "1.IH" True nz "1.prems" by simp
    have a: "take (Suc i) (d[i := s ! i]) = take i d @ [s ! i]"
      using True "1.prems" by (simp add: take_Suc_conv_app_nth)
    have b: "take (count - i) (drop i s) = s ! i # take (count - Suc i) (drop (Suc i) s)"
      using True il by (metis Cons_nth_drop_Suc Suc_diff_Suc take_Suc_Cons)
    have c: "drop count (d[i := s ! i]) = drop count d" using True by simp
    show ?thesis
      using True nz ih a b c by (subst format_string_loop.simps) simp
  qed
qed


text \<open>
  Claim C4, as the code has it. When the length of \<open>s\<close> with its terminator does not fit in
  \<open>count\<close> bytes, the plain-string encoder (the scratch array starts with \<open>%s\<close>) returns
  -1 and writes no null byte, but it has by then copied the first \<open>count\<close> bytes of \<open>s\<close>
  over the first \<open>count\<close> bytes of the destination; the destination past \<open>count\<close> is
  unchanged.
\<close>

theorem format_string_insufficient:
  assumes "format_str ! 0 = CHR ''%''" and "format_str ! 1 = CHR ''s''"
    and "strlen s + 1 > count" and "count \<le> length destination"
  shows "format_string prim destination count format_str s
           = (- 1, take count s @ drop count destination)
         \<and> NUL \<notin> set (take count s)"
proof -
  have le: "count \<le> strlen s" using assms(3) by simp
  have "format_string_loop 0 count s destination
          = (- 1, take count s @ drop count destination)"
    using format_string_loop_short [of 0 count s destination] le assms(4) by simp
  moreover have "NUL \<notin> set (take count s)"
  proof
    assume "NUL \<in> set (take count s)"
    then obtain k where k: "k < length (take count s)" "take count s ! k = NUL"
      by (auto simp: in_set_conv_nth)
    then have "k < strlen s" using le by simp
    then have "s ! k \<noteq> NUL" using cstr_at_before_strlen by blast
    then show False using k by simp
  qed
  ultimately show ?thesis using assms(1,2) by (simp add: format_string_def)
qed

theorem format_string_insufficient_witness:
  "format_string no_primitive ''xyzw'' 2 ''%s'' ''abc'' = (- 1, ''abzw'')
   \<and> NUL \<notin> set ''ab''"
  using format_string_insufficient
    [where format_str = "''%s''" and s = "''abc''" and count = 2 and destination = "''xyzw''"
       and prim = no_primitive]
  by (simp add: strlen_def NUL_def)

text \<open>
  Claim C4 as stated fails: with a budget of 2 bytes and the string \<open>abc\<close>, the encoder
  returns -1 and the destination \<open>xyzw\<close> has become \<open>abzw\<close>.
\<close>

theorem format_string_partial_output_counterexample:
  "fst (format_string no_primitive ''xyzw'' 2 ''%s'' ''abc'') = - 1
   \<and> snd (format_string no_primitive ''xyzw'' 2 ''%s'' ''abc'') \<noteq> ''xyzw''"
  by (simp add: format_string_def format_string_loop.simps cstr_at_def NUL_def)

section \<open>The invariant of the output buffer\<close>

lemma Reserve_Capacity:
  "Capacity (Reserve sb n)
     = (if Pos sb + n > Capacity sb then max (Capacity sb * 2) (Pos sb + n) else Capacity sb)"
  by (simp add: Reserve_def Let_def max_def)

lemma AddUninitialized_inv:
  "Pos (fst (AddUninitialized sb n)) \<le> Capacity (fst (AddUninitialized sb n))"
  using Reserve_room [of sb n] by (simp add: AddUninitialized_def Let_def)

lemma AddUninitialized_Pos:
  "Pos (fst (AddUninitialized sb n)) = Pos sb + n" "snd (AddUninitialized sb n) = Pos sb"
  by (simp_all add: AddUninitialized_def Let_def)

lemma Add_inv: "Pos (Add sb c) \<le> Capacity (Add sb c)"
  using AddUninitialized_inv [of sb 1] by (simp add: Add_def split_def Let_def)

lemma Add_all_inv: "Pos sb \<le> Capacity sb \<Longrightarrow> Pos (Add_all sb cs) \<le> Capacity (Add_all sb cs)"
  by (induction cs arbitrary: sb) (simp_all add: Add_inv)

lemma MoveCurrentPos_inv: "MoveCurrentPos sb d = Some sb' \<Longrightarrow> Pos sb' \<le> Capacity sb'"
  by (auto simp: MoveCurrentPos_def Let_def split: if_splits)

lemma bulk_copy_inv:
  "Pos sb + (stopAt - i) \<le> Capacity sb \<Longrightarrow>
   Pos (snd (bulk_copy fmt i stopAt sb)) \<le> Capacity (snd (bulk_copy fmt i stopAt sb))"
proof (induction fmt i stopAt sb rule: bulk_copy.induct)
  case (1 fmt i stopAt out)
  show ?case
  proof (cases "i < stopAt \<and> cstr_at fmt i \<noteq> CHR ''%'' \<and> cstr_at fmt i \<noteq> NUL")
    case True
    let ?o = "out\<lparr>Buffer := (Buffer out)[Pos out := cstr_at fmt i], Pos := Pos out + 1\<rparr>"
    have e: "stopAt - i = Suc (stopAt - Suc i)" using True by (simp add: Suc_diff_Suc)
    have "Pos out + 1 + (stopAt - Suc i) \<le> Capacity out" using "1.prems" e by linarith
    then have "Pos ?o + (stopAt - Suc i) \<le> Capacity ?o" by simp
    then have "Pos (snd (bulk_copy fmt (Suc i) stopAt ?o))
        \<le> Capacity (snd (bulk_copy fmt (Suc i) stopAt ?o))"
      using "1.IH" True by blast
    moreover have "bulk_copy fmt i stopAt out = bulk_copy fmt (Suc i) stopAt ?o"
      using True by (subst bulk_copy.simps) simp
    ultimately show ?thesis by simp
  next
    case False
    then show ?thesis using "1.prems" by (subst (1 2) bulk_copy.simps) auto
  qed
qed

lemma argbuf_store_all_fault:
  "argbuf_store_all ab p cs = Inl e \<Longrightarrow> e \<noteq> AssertFailed"
  by (induction cs arbitrary: ab p) (auto simp: argbuf_store_def split: if_splits sum.splits)

lemma fmt_settype_fault: "fmt_settype ab p w t = Inl e \<Longrightarrow> e \<noteq> AssertFailed"
  by (auto simp: fmt_settype_def Let_def simp del: argbuf_store_all.simps
      dest: argbuf_store_all_fault split: option.splits if_splits)

lemma with_settype_fault:
  "with_settype st f = Inl e \<Longrightarrow> st = Inl e"
  by (auto simp: with_settype_def split_def Let_def split: sum.splits)

lemma fmt_output_with_snprintf_fault:
  "fmt_output_with_snprintf prim outbuf t ab n sz arg = Inl e \<Longrightarrow> e \<noteq> AssertFailed"
  unfolding fmt_output_with_snprintf_def Let_def
  by (cases arg) (auto dest!: with_settype_fault dest: fmt_settype_fault split: if_splits)

lemma write_attempt_fault:
  "write_attempt cx prim c ab n arg outbuf sz = Inl e \<Longrightarrow> e \<noteq> AssertFailed"
  by (auto simp: write_attempt_def split_def Let_def dest: fmt_output_with_snprintf_fault
      split: if_splits option.splits)

lemma retry_loop_inv:
  assumes "retry_loop cx prim c n arg out ab sz = Some y"
  shows "good_result y"
  using assms
proof (induction cx prim c n arg out ab sz y rule: retry_loop.raw_induct [rotated 1, consumes 1])
  case (1 retry cx prim c n arg out ab sz y)
  obtain out1 off where au: "AddUninitialized out sz = (out1, off)" by (cases "AddUninitialized out sz")
  have p1: "Pos out1 = Pos out + sz" and c1: "Pos out1 \<le> Capacity out1"
    using AddUninitialized_Pos(1) [of out sz] AddUninitialized_inv [of out sz] au by simp_all
  show ?case
  proof (cases "write_attempt cx prim c ab n arg (take sz (drop off (Buffer out1))) sz")
    case (Inl e)
    then show ?thesis using "1"(2) au write_attempt_fault [OF Inl]
      by (auto simp: good_result_def)
  next
    case (Inr r)
    obtain written outbuf1 ab1 where r: "r = (written, outbuf1, ab1)" by (cases r)
    let ?out2 = "out1\<lparr>Buffer := splice (Buffer out1) off outbuf1\<rparr>"
    have m1: "0 \<le> written \<Longrightarrow> written < int sz \<Longrightarrow>
        MoveCurrentPos ?out2 (written - int sz) = Some (?out2\<lparr>Pos := nat (int (Pos out1) + (written - int sz))\<rparr>)"
      using p1 c1 by (simp add: MoveCurrentPos_def Let_def)
    have m2: "MoveCurrentPos ?out2 (- int sz) = Some (?out2\<lparr>Pos := Pos out\<rparr>)"
      using p1 c1 by (simp add: MoveCurrentPos_def Let_def)
    show ?thesis
    proof (cases "0 \<le> written \<and> written < int sz")
      case True
      then have "y = Inr (?out2\<lparr>Pos := nat (int (Pos out1) + (written - int sz))\<rparr>, ab1)"
        using "1"(2) au Inr r m1 by simp
      moreover have "nat (int (Pos out1) + (written - int sz)) \<le> Capacity out1"
        using True p1 c1 by linarith
      ultimately show ?thesis by (simp add: good_result_def)
    next
      case False
      show ?thesis
      proof (cases "MaxOutputSize \<le> int sz")
        case True
        then have "y = Inr (?out2, ab1)" using "1"(2) au Inr r False by simp
        then show ?thesis using c1 by (simp add: good_result_def)
      next
        case F2: False
        then have "retry cx prim c n arg (?out2\<lparr>Pos := Pos out\<rparr>) ab1 (sz * 2) = Some y"
          using "1"(2) au Inr r False m2 by simp
        then show ?thesis by (rule "1"(1))
      qed
    qed
  qed
qed

lemma copy_spec_fault: "copy_spec fmt js ab n = Inl e \<Longrightarrow> e \<noteq> AssertFailed"
  by (induction js arbitrary: ab n) (auto simp: argbuf_store_def split: if_splits sum.splits)

lemma Reserve_inv: "Pos (Reserve sb n) \<le> Capacity (Reserve sb n)"
  using Reserve_room [of sb n] by simp

lemma bulk_copy_from_remaining:
  "Pos sb \<le> Capacity sb \<Longrightarrow> bulk_copy fmt i (i + RemainingSpace sb) sb = (i1, sb1) \<Longrightarrow>
   Pos sb1 \<le> Capacity sb1"
  using bulk_copy_inv [of sb "i + RemainingSpace sb" i fmt] by (simp add: RemainingSpace_def)

lemma fmt_loop_inv:
  assumes "fmt_loop E i ts iarg out ab = Some y" and "Pos out \<le> Capacity out"
  shows "good_result y"
  using assms
proof (induction E i ts iarg out ab y rule: fmt_loop.raw_induct [rotated 1, consumes 1])
  case (1 f E i ts iarg out ab y)
  note IH = "1"(1) and eq = "1"(2) and inv = "1"(3)
  show ?case
  proof (cases "cstr_at (e_fmt E) i = NUL")
    case True
    then show ?thesis using eq inv by (auto simp: good_result_def)
  next
    case nz: False
    show ?thesis
    proof (cases ts)
      case None
      obtain i1 o1 where bc: "bulk_copy (e_fmt E) i (i + RemainingSpace out) out = (i1, o1)"
        by (cases "bulk_copy (e_fmt E) i (i + RemainingSpace out) out")
      have o1: "Pos o1 \<le> Capacity o1" using bulk_copy_from_remaining [OF inv bc] .
      show ?thesis
        using eq nz None bc o1 IH Reserve_inv [of o1 1]
        by (auto simp: Let_def good_result_def split: if_splits)
    next
      case (Some t)
      show ?thesis
      proof (cases "is_terminator (cstr_at (e_fmt E) i)")
        case False
        then show ?thesis
          using eq nz Some IH inv Add_inv [of out "CHR ''%''"]
          by (auto simp: Let_def split: if_splits)
      next
        case tm: True
        let ?c = "cstr_at (e_fmt E) i"
        show ?thesis
        proof (cases "int iarg \<ge> e_nargs E \<or> i - t \<ge> argbuf_arraysize - 1
            \<or> (?c = CHR ''n'' \<or> (?c = CHR ''q'' \<and> Escape_q (e_context E) = None)
                \<or> (?c = CHR ''Q'' \<and> Escape_Q (e_context E) = None))")
          case True
          then have "f E (Suc i) None iarg
              (Add_all out (map (cstr_at (e_fmt E)) [t..<Suc i])) ab = Some y"
            using eq nz Some tm by (simp add: Let_def del: upt_Suc)
          then show ?thesis using IH Add_all_inv [OF inv] by blast
        next
          case lit: False
          have eq2: "(case copy_spec (e_fmt E) [t..<i] ab 0 of
                Inl e \<Rightarrow> Some (Inl e)
              | Inr (argbuf1, argbufsize) \<Rightarrow>
                  (if iarg \<ge> length (e_args E) then Some (Inl (ArgsOutOfBounds iarg))
                   else Option.bind
                     (retry_loop (e_context E) (e_prim E) ?c argbufsize (e_args E ! iarg)
                        out argbuf1 (e_guess E))
                     (\<lambda>r. case r of
                        Inl e \<Rightarrow> Some (Inl e)
                      | Inr (output1, argbuf2) \<Rightarrow> f E (Suc i) None (Suc iarg) output1 argbuf2)))
              = Some y"
            using eq nz Some tm lit by (auto simp: Let_def split: if_splits)
          show ?thesis
          proof (cases "copy_spec (e_fmt E) [t..<i] ab 0")
            case (Inl e)
            then have "y = Inl e" using eq2 by simp
            then show ?thesis using copy_spec_fault [OF Inl] by (simp add: good_result_def)
          next
            case (Inr r)
            obtain ab1 n where r: "r = (ab1, n)" by (cases r)
            show ?thesis
            proof (cases "iarg \<ge> length (e_args E)")
              case True
              then have "y = Inl (ArgsOutOfBounds iarg)"
                using eq2 Inr r by simp
              then show ?thesis by (simp add: good_result_def)
            next
              case False
              then obtain rr where
                rl: "retry_loop (e_context E) (e_prim E) ?c n (e_args E ! iarg) out ab1 (e_guess E) = Some rr"
                and k: "(case rr of Inl e \<Rightarrow> Some (Inl e)
                         | Inr (output1, argbuf2) \<Rightarrow> f E (Suc i) None (Suc iarg) output1 argbuf2) = Some y"
                using eq2 Inr r by (auto simp: bind_eq_Some_conv)
              have g: "good_result rr" using retry_loop_inv [OF rl] .
              show ?thesis
              proof (cases rr)
                case (Inl e)
                then show ?thesis using k g by (auto simp: good_result_def)
              next
                case (Inr q)
                obtain o1 ab2 where q: "q = (o1, ab2)" by (cases q)
                have "Pos o1 \<le> Capacity o1" using g Inr q by (simp add: good_result_def)
                moreover have "f E (Suc i) None (Suc iarg) o1 ab2 = Some y" using k Inr q by simp
                ultimately show ?thesis using IH by blast
              qed
            qed
          qed
        qed
      qed
    qed
  qed
qed

text \<open>
  Claim C9. The cursor never exceeds the capacity: \<open>Pos \<le> Capacity\<close> holds for a new
  \<open>StackBuffer\<close>; \<open>Reserve\<close> leaves the cursor alone and, when \<open>Pos + n\<close> exceeds the capacity,
  grows the capacity to the maximum of twice the capacity and \<open>Pos + n\<close>, so that \<open>n\<close> more
  bytes fit; \<open>AddUninitialized\<close> and \<open>Add\<close> establish the invariant; \<open>MoveCurrentPos\<close> returns
  only with the invariant (its \<open>assert\<close>); the bulk literal copy of the scanner, bounded by the
  remaining space, preserves it; and the whole scanner loop, started from any state with the
  invariant, never fails that \<open>assert\<close> and ends with the invariant.
\<close>

theorem StackBuffer_invariant:
  "Pos (StackBuffer_new staticbuf staticbuf_size) \<le> Capacity (StackBuffer_new staticbuf staticbuf_size)
   \<and> Pos (Reserve sb n) = Pos sb
   \<and> Capacity (Reserve sb n)
        = (if Pos sb + n > Capacity sb then max (Capacity sb * 2) (Pos sb + n) else Capacity sb)
   \<and> Pos (Reserve sb n) + n \<le> Capacity (Reserve sb n)
   \<and> Pos (fst (AddUninitialized sb n)) \<le> Capacity (fst (AddUninitialized sb n))
   \<and> Pos (Add sb c) \<le> Capacity (Add sb c)
   \<and> (MoveCurrentPos sb d = Some sb' \<longrightarrow> Pos sb' \<le> Capacity sb')
   \<and> (Pos sb \<le> Capacity sb \<longrightarrow>
        Pos (snd (bulk_copy fmt i (i + RemainingSpace sb) sb))
          \<le> Capacity (snd (bulk_copy fmt i (i + RemainingSpace sb) sb)))
   \<and> (Pos sb \<le> Capacity sb \<and> fmt_loop E i tokenstart iarg sb argbuf = Some y \<longrightarrow>
        (case y of Inl e \<Rightarrow> e \<noteq> AssertFailed | Inr (out, k) \<Rightarrow> Pos out \<le> Capacity out))"
proof -
  have 1: "Pos (StackBuffer_new staticbuf staticbuf_size)
      \<le> Capacity (StackBuffer_new staticbuf staticbuf_size)"
    by (simp add: StackBuffer_new_def)
  have 2: "Pos (Reserve sb n) + n \<le> Capacity (Reserve sb n)"
    using Reserve_room [of sb n] by simp
  have 3: "Pos sb \<le> Capacity sb \<longrightarrow>
        Pos (snd (bulk_copy fmt i (i + RemainingSpace sb) sb))
          \<le> Capacity (snd (bulk_copy fmt i (i + RemainingSpace sb) sb))"
    using bulk_copy_inv [of sb "i + RemainingSpace sb" i fmt] by (simp add: RemainingSpace_def)
  have 4: "Pos sb \<le> Capacity sb \<and> fmt_loop E i tokenstart iarg sb argbuf = Some y \<longrightarrow>
        (case y of Inl e \<Rightarrow> e \<noteq> AssertFailed | Inr (out, k) \<Rightarrow> Pos out \<le> Capacity out)"
    using fmt_loop_inv [of E i tokenstart iarg sb argbuf y] by (auto simp: good_result_def)
  have 5: "MoveCurrentPos sb d = Some sb' \<longrightarrow> Pos sb' \<le> Capacity sb'"
    using MoveCurrentPos_inv by blast
  show ?thesis
    using 1 2 3 4 5 Reserve_Capacity [of sb n] AddUninitialized_inv [of sb n] Add_inv [of sb c]
    by (simp only: Reserve_Pos simp_thms)
qed

theorem StackBuffer_invariant_witness:
  "Pos (Reserve (StackBuffer_new ''xyzw'' 4) 6) = 0
   \<and> Capacity (Reserve (StackBuffer_new ''xyzw'' 4) 6) = 8
   \<and> Pos (fst (AddUninitialized (StackBuffer_new ''xyzw'' 4) 6))
        \<le> Capacity (fst (AddUninitialized (StackBuffer_new ''xyzw'' 4) 6))
   \<and> Pos (Add (StackBuffer_new ''xyzw'' 4) (CHR ''a'')) \<le> Capacity (Add (StackBuffer_new ''xyzw'' 4) (CHR ''a''))
   \<and> MoveCurrentPos (StackBuffer_new ''xyzw'' 4) 3
        = Some \<lparr>Buffer = ''xyzw'', Pos = 3, Capacity = 4, OwnBuffer = False\<rparr>
   \<and> Pos \<lparr>Buffer = ''xyzw'', Pos = 3, Capacity = 4, OwnBuffer = False\<rparr>
        \<le> Capacity \<lparr>Buffer = ''xyzw'', Pos = 3, Capacity = 4, OwnBuffer = False\<rparr>
   \<and> Pos (snd (bulk_copy ''abcdef%d'' 0 (0 + RemainingSpace (StackBuffer_new ''xyzw'' 4))
               (StackBuffer_new ''xyzw'' 4)))
        \<le> Capacity (snd (bulk_copy ''abcdef%d'' 0 (0 + RemainingSpace (StackBuffer_new ''xyzw'' 4))
               (StackBuffer_new ''xyzw'' 4)))
   \<and> fmt_loop \<lparr>e_context = default_context, e_prim = no_primitive, e_fmt = ''abc%n'',
                 e_nargs = 1, e_args = [TI32 5], e_guess = 1\<rparr>
         0 None 0 (StackBuffer_new ''xyzw'' 4) (replicate 16 fresh_byte)
        = Some (Inr (\<lparr>Buffer = ''abc%n'' @ replicate 3 fresh_byte, Pos = 5, Capacity = 8,
                       OwnBuffer = True\<rparr>, 0))
   \<and> Pos \<lparr>Buffer = ''abc%n'' @ replicate 3 fresh_byte, Pos = 5, Capacity = 8, OwnBuffer = True\<rparr>
        \<le> Capacity \<lparr>Buffer = ''abc%n'' @ replicate 3 fresh_byte, Pos = 5, Capacity = 8,
                       OwnBuffer = True\<rparr>"
proof -
  let ?sb = "StackBuffer_new ''xyzw'' 4"
  let ?E = "\<lparr>e_context = default_context, e_prim = no_primitive, e_fmt = ''abc%n'',
                 e_nargs = 1, e_args = [TI32 5], e_guess = 1\<rparr>"
  let ?out = "\<lparr>Buffer = ''abc%n'' @ replicate 3 fresh_byte, Pos = 5, Capacity = 8, OwnBuffer = True\<rparr>"
  have m: "MoveCurrentPos ?sb 3 = Some \<lparr>Buffer = ''xyzw'', Pos = 3, Capacity = 4, OwnBuffer = False\<rparr>"
    by (simp add: MoveCurrentPos_def StackBuffer_new_def)
  have l: "fmt_loop ?E 0 None 0 ?sb (replicate 16 fresh_byte) = Some (Inr (?out, 0))"
    by code_simp
  have p: "Pos ?sb \<le> Capacity ?sb" by (simp add: StackBuffer_new_def)
  have r: "Pos ?sb + 6 > Capacity ?sb" "max (Capacity ?sb * 2) (Pos ?sb + 6) = 8" "Pos ?sb = 0"
    by (simp_all add: StackBuffer_new_def)
  show ?thesis
    using StackBuffer_invariant [where sb = ?sb and n = 6 and c = "CHR ''a''" and d = 3
        and sb' = "\<lparr>Buffer = ''xyzw'', Pos = 3, Capacity = 4, OwnBuffer = False\<rparr>"
        and fmt = "''abcdef%d''" and i = 0 and E = ?E and tokenstart = None and iarg = 0
        and argbuf = "replicate 16 fresh_byte" and y = "Inr (?out, 0)"]
      m l p r
    by simp
qed

section \<open>Contents of the output buffer\<close>

lemma Reserve_sb_inv: "sb_inv sb \<Longrightarrow> sb_inv (Reserve sb n)"
  by (auto simp: sb_inv_def Reserve_def Let_def)

lemma Reserve_contents: "sb_inv sb \<Longrightarrow> contents (Reserve sb n) = contents sb"
  by (auto simp: sb_inv_def Reserve_def Let_def contents_def)

lemma Add_sb_inv: "sb_inv sb \<Longrightarrow> sb_inv (Add sb c)"
  using Reserve_sb_inv [of sb 1] Reserve_room [of sb 1]
  by (simp add: Add_def AddUninitialized_def Let_def sb_inv_def)

lemma Add_contents: "sb_inv sb \<Longrightarrow> contents (Add sb c) = contents sb @ [c]"
proof -
  assume a: "sb_inv sb"
  let ?r = "Reserve sb 1"
  have r: "sb_inv ?r" "contents ?r = contents sb" "Pos ?r + 1 \<le> Capacity ?r"
    using a Reserve_sb_inv Reserve_contents Reserve_room [of sb 1] by simp_all
  have "contents (Add sb c) = take (Pos ?r + 1) ((Buffer ?r)[Pos ?r := c])"
    by (simp add: Add_def AddUninitialized_def Let_def contents_def)
  also have "\<dots> = take (Pos ?r) (Buffer ?r) @ [c]"
    using r(1,3) by (simp add: sb_inv_def take_Suc_conv_app_nth)
  finally show ?thesis using r(2) by (simp add: contents_def)
qed

lemma Add_all_sb_inv: "sb_inv sb \<Longrightarrow> sb_inv (Add_all sb cs)"
  by (induction cs arbitrary: sb) (simp_all add: Add_sb_inv)

lemma Add_all_contents: "sb_inv sb \<Longrightarrow> contents (Add_all sb cs) = contents sb @ cs"
  by (induction cs arbitrary: sb) (simp_all add: Add_sb_inv Add_contents)

section \<open>Steps of the scanner\<close>

lemma skip_one:
  assumes "\<not> is_terminator (cstr_at (e_fmt E) i)" and "cstr_at (e_fmt E) i \<noteq> CHR ''%''"
    and "cstr_at (e_fmt E) i \<noteq> NUL"
  shows "fmt_loop E i (Some ts) iarg out ab = fmt_loop E (Suc i) (Some ts) iarg out ab"
  using assms by (subst fmt_loop.simps) (simp add: Let_def)

lemma skip_run:
  assumes "\<forall>j. i \<le> j \<and> j < k \<longrightarrow> \<not> is_terminator (cstr_at (e_fmt E) j)
              \<and> cstr_at (e_fmt E) j \<noteq> CHR ''%'' \<and> cstr_at (e_fmt E) j \<noteq> NUL"
    and "i \<le> k"
  shows "fmt_loop E i (Some ts) iarg out ab = fmt_loop E k (Some ts) iarg out ab"
  using assms
proof (induction "k - i" arbitrary: i)
  case 0
  then show ?case by simp
next
  case (Suc d)
  then have "i < k" by simp
  then have "fmt_loop E i (Some ts) iarg out ab = fmt_loop E (Suc i) (Some ts) iarg out ab"
    using Suc.prems(1) skip_one by simp
  moreover have "fmt_loop E (Suc i) (Some ts) iarg out ab = fmt_loop E k (Some ts) iarg out ab"
    using Suc.hyps(1) [of "Suc i"] Suc.hyps(2) Suc.prems \<open>i < k\<close> by simp
  ultimately show ?case by simp
qed

lemma literal_n:
  assumes "cstr_at (e_fmt E) i = CHR ''n''"
  shows "fmt_loop E i (Some ts) iarg out ab
     = fmt_loop E (Suc i) None iarg (Add_all out (map (cstr_at (e_fmt E)) [ts..<Suc i])) ab"
  using assms by (subst fmt_loop.simps) (simp add: Let_def is_terminator_def NUL_def del: upt_Suc)

lemma at_end:
  assumes "cstr_at (e_fmt E) i = NUL"
  shows "fmt_loop E i ts iarg out ab = Some (Inr (out, iarg))"
  using assms by (subst fmt_loop.simps) simp

lemma bulk_copy_run:
  assumes "sb_inv out" and "i \<le> k"
    and "\<forall>j. i \<le> j \<and> j < k \<longrightarrow> literal_char (cstr_at fmt j)"
    and "\<not> literal_char (cstr_at fmt k)"
    and "i \<le> stopAt" and "stopAt - i \<le> RemainingSpace out"
  shows "\<exists>out1. bulk_copy fmt i stopAt out = (min k stopAt, out1) \<and> sb_inv out1
           \<and> contents out1 = contents out @ map (cstr_at fmt) [i..<min k stopAt]
           \<and> RemainingSpace out1 = RemainingSpace out - (min k stopAt - i)"
  using assms
proof (induction fmt i stopAt out rule: bulk_copy.induct)
  case (1 fmt i stopAt out)
  show ?case
  proof (cases "i < stopAt \<and> cstr_at fmt i \<noteq> CHR ''%'' \<and> cstr_at fmt i \<noteq> NUL")
    case False
    have "i = min k stopAt"
    proof (cases "i < stopAt")
      case True
      then have "\<not> literal_char (cstr_at fmt i)" using False by (simp add: literal_char_def)
      then have "i = k" using "1.prems"(2,3) by (cases "i = k") auto
      then show ?thesis using True by simp
    next
      case False
      then show ?thesis using "1.prems"(2,5) by simp
    qed
    moreover have "bulk_copy fmt i stopAt out = (i, out)"
      by (subst bulk_copy.simps) (simp only: False if_False)
    ultimately show ?thesis using "1.prems"(1) by simp
  next
    case True
    let ?o = "out\<lparr>Buffer := (Buffer out)[Pos out := cstr_at fmt i], Pos := Pos out + 1\<rparr>"
    have ik: "i < k" using True "1.prems"(2,4) by (cases "i = k") (auto simp: literal_char_def)
    have "0 < stopAt - i" using True by simp
    then have room: "Pos out < Capacity out"
      using "1.prems"(6) unfolding RemainingSpace_def by linarith
    have inv: "sb_inv ?o" using "1.prems"(1) room by (simp add: sb_inv_def)
    have c: "contents ?o = contents out @ [cstr_at fmt i]"
      using "1.prems"(1) room by (simp add: contents_def sb_inv_def take_Suc_conv_app_nth)
    have rem: "RemainingSpace ?o = RemainingSpace out - 1" by (simp add: RemainingSpace_def)
    have p2: "Suc i \<le> k" using ik by simp
    have p3: "\<forall>j. Suc i \<le> j \<and> j < k \<longrightarrow> literal_char (cstr_at fmt j)"
      using "1.prems"(3) by simp
    have p5: "Suc i \<le> stopAt" using True by simp
    have p6: "stopAt - Suc i \<le> RemainingSpace ?o"
      using "1.prems"(6) True unfolding rem by linarith
    have "\<exists>out1. bulk_copy fmt (Suc i) stopAt ?o = (min k stopAt, out1) \<and> sb_inv out1
           \<and> contents out1 = contents ?o @ map (cstr_at fmt) [Suc i..<min k stopAt]
           \<and> RemainingSpace out1 = RemainingSpace ?o - (min k stopAt - Suc i)"
      by (rule "1.IH" [OF True inv p2 p3 "1.prems"(4) p5 p6])
    then obtain out1 where o1: "bulk_copy fmt (Suc i) stopAt ?o = (min k stopAt, out1)" "sb_inv out1"
        "contents out1 = contents ?o @ map (cstr_at fmt) [Suc i..<min k stopAt]"
        "RemainingSpace out1 = RemainingSpace ?o - (min k stopAt - Suc i)" by blast
    have e: "bulk_copy fmt i stopAt out = bulk_copy fmt (Suc i) stopAt ?o"
      using True by (subst bulk_copy.simps) simp
    have u: "[i..<min k stopAt] = i # [Suc i..<min k stopAt]"
      using ik True by (simp add: upt_conv_Cons)
    have "RemainingSpace out1 = RemainingSpace out - (min k stopAt - i)"
      using o1(4) ik True unfolding rem by (cases "k \<le> stopAt") (simp_all add: min_def)
    then show ?thesis using e o1 c u by simp
  qed
qed

lemma RemainingSpace_Reserve: "sb_inv sb \<Longrightarrow> 1 \<le> RemainingSpace (Reserve sb 1)"
  using Reserve_room [of sb 1] by (simp add: RemainingSpace_def)

lemma literal_run:
  assumes "sb_inv out" and "i \<le> k"
    and "\<forall>j. i \<le> j \<and> j < k \<longrightarrow> literal_char (cstr_at (e_fmt E) j)"
    and "\<not> literal_char (cstr_at (e_fmt E) k)"
  shows "\<exists>out'. sb_inv out' \<and> contents out' = contents out @ map (cstr_at (e_fmt E)) [i..<k]
          \<and> fmt_loop E i None iarg out ab
             = (if cstr_at (e_fmt E) k = CHR ''%'' then fmt_loop E (Suc k) (Some k) iarg out' ab
                else Some (Inr (out', iarg)))"
  using assms
proof (induction "2 * (k - i) + (if RemainingSpace out = 0 then 1 else 0 :: nat)"
    arbitrary: i out rule: less_induct)
  case less
  let ?fmt = "e_fmt E"
  show ?case
  proof (cases "cstr_at ?fmt i = NUL")
    case True
    then have "i = k" using less.prems(2,3) by (cases "i = k") (auto simp: literal_char_def)
    moreover have "fmt_loop E i None iarg out ab = Some (Inr (out, iarg))"
      using True by (subst fmt_loop.simps) simp
    ultimately show ?thesis using True less.prems(1) by (auto simp: NUL_def)
  next
    case nz: False
    let ?stop = "i + RemainingSpace out"
    obtain out1 where o1: "bulk_copy ?fmt i ?stop out = (min k ?stop, out1)" "sb_inv out1"
        "contents out1 = contents out @ map (cstr_at ?fmt) [i..<min k ?stop]"
        "RemainingSpace out1 = RemainingSpace out - (min k ?stop - i)"
      using bulk_copy_run [OF less.prems(1,2,3,4), of ?stop] by auto
    have unf: "fmt_loop E i None iarg out ab
        = (if cstr_at ?fmt (min k ?stop) = CHR ''%'' then
             fmt_loop E (Suc (min k ?stop)) (Some (min k ?stop)) iarg out1 ab
           else if cstr_at ?fmt (min k ?stop) = NUL then Some (Inr (out1, iarg))
           else fmt_loop E (min k ?stop) None iarg (Reserve out1 1) ab)"
      using nz o1(1) by (subst fmt_loop.simps) (simp add: Let_def)
    show ?thesis
    proof (cases "k \<le> ?stop")
      case True
      then have m: "min k ?stop = k" by simp
      show ?thesis
        using unf o1(2,3) less.prems(4) unfolding m
        by (auto simp: literal_char_def)
    next
      case False
      then have m: "min k ?stop = ?stop" and lt: "?stop < k" by simp_all
      have lit: "literal_char (cstr_at ?fmt ?stop)" using less.prems(3) lt by simp
      have unf2: "fmt_loop E i None iarg out ab = fmt_loop E ?stop None iarg (Reserve out1 1) ab"
        using unf lit unfolding m by (simp add: literal_char_def)
      let ?r = "Reserve out1 1"
      have r: "sb_inv ?r" "contents ?r = contents out1" "1 \<le> RemainingSpace ?r"
        using o1(2) Reserve_sb_inv Reserve_contents RemainingSpace_Reserve by simp_all
      have meas: "2 * (k - ?stop) + (if RemainingSpace ?r = 0 then 1 else 0)
          < 2 * (k - i) + (if RemainingSpace out = 0 then 1 else 0)"
        using r(3) lt by (cases "RemainingSpace out = 0") auto
      have "\<exists>out'. sb_inv out' \<and> contents out' = contents ?r @ map (cstr_at ?fmt) [?stop..<k]
          \<and> fmt_loop E ?stop None iarg ?r ab
             = (if cstr_at ?fmt k = CHR ''%'' then fmt_loop E (Suc k) (Some k) iarg out' ab
                else Some (Inr (out', iarg)))"
        using less.hyps [OF meas r(1)] lt less.prems(3,4) by simp
      then obtain out' where o': "sb_inv out'"
          "contents out' = contents ?r @ map (cstr_at ?fmt) [?stop..<k]"
          "fmt_loop E ?stop None iarg ?r ab
             = (if cstr_at ?fmt k = CHR ''%'' then fmt_loop E (Suc k) (Some k) iarg out' ab
                else Some (Inr (out', iarg)))" by blast
      have "[i..<k] = [i..<?stop] @ [?stop..<k]"
        using lt by (metis le_add1 less_imp_le_nat upt_add_eq_append le_Suc_ex)
      then have "contents out' = contents out @ map (cstr_at ?fmt) [i..<k]"
        using o'(2) r(2) o1(3) m by simp
      then show ?thesis using o'(1,3) unf2 by auto
    qed
  qed
qed

text \<open>
  Claim C5. A specifier that ends in the letter \<open>n\<close> is never honoured. Let the \<open>%\<close> stand at
  \<open>ts\<close> and the \<open>n\<close> at \<open>i\<close>, with no terminator letter and no \<open>%\<close> between them. The scanner,
  having entered the specifier, continues after the \<open>n\<close> in the literal state with the same
  \<open>iarg\<close> (so the next accepted specifier still reads that argument cell), and the output
  has grown by exactly the bytes of the specifier, from the \<open>%\<close> to the \<open>n\<close>.
\<close>

theorem percent_n_literal:
  assumes "\<forall>j. ts < j \<and> j < i \<longrightarrow> \<not> is_terminator (cstr_at (e_fmt E) j)
              \<and> cstr_at (e_fmt E) j \<noteq> CHR ''%'' \<and> cstr_at (e_fmt E) j \<noteq> NUL"
    and "ts < i" and "cstr_at (e_fmt E) i = CHR ''n''" and "sb_inv out"
  shows "fmt_loop E (Suc ts) (Some ts) iarg out ab
           = fmt_loop E (Suc i) None iarg (Add_all out (map (cstr_at (e_fmt E)) [ts..<Suc i])) ab
         \<and> contents (Add_all out (map (cstr_at (e_fmt E)) [ts..<Suc i]))
           = contents out @ map (cstr_at (e_fmt E)) [ts..<Suc i]"
proof -
  have "fmt_loop E (Suc ts) (Some ts) iarg out ab = fmt_loop E i (Some ts) iarg out ab"
    using skip_run [of "Suc ts" i E ts iarg out ab] assms(1,2) by simp
  then show ?thesis
    using literal_n [OF assms(3)] Add_all_contents [OF assms(4)] by simp
qed

theorem percent_n_literal_witness:
  "fmt_loop \<lparr>e_context = default_context, e_prim = no_primitive, e_fmt = ''%5n%d'', e_nargs = 1,
              e_args = [TI32 5], e_guess = 1\<rparr>
      (Suc 0) (Some 0) 0 (StackBuffer_new ''xyzw'' 4) (replicate 16 fresh_byte)
    = fmt_loop \<lparr>e_context = default_context, e_prim = no_primitive, e_fmt = ''%5n%d'', e_nargs = 1,
              e_args = [TI32 5], e_guess = 1\<rparr>
      (Suc 2) None 0 (Add_all (StackBuffer_new ''xyzw'' 4) ''%5n'') (replicate 16 fresh_byte)
   \<and> contents (Add_all (StackBuffer_new ''xyzw'' 4) ''%5n'') = ''%5n''
   \<and> fmt_core default_context no_primitive ''%n%d'' 1 [TI32 5] = Some (Inr ''%n5'')"
proof -
  let ?E = "\<lparr>e_context = default_context, e_prim = no_primitive, e_fmt = ''%5n%d'', e_nargs = 1,
              e_args = [TI32 5], e_guess = 1\<rparr>"
  have m: "map (cstr_at (e_fmt ?E)) [0..<Suc 2] = ''%5n''" by code_simp
  have c: "contents (StackBuffer_new ''xyzw'' 4) = []"
    by (simp add: contents_def StackBuffer_new_def)
  have e: "fmt_core default_context no_primitive ''%n%d'' 1 [TI32 5] = Some (Inr ''%n5'')"
    by code_simp
  have h: "\<forall>j. 0 < j \<and> j < 2 \<longrightarrow> \<not> is_terminator (cstr_at (e_fmt ?E) j)
              \<and> cstr_at (e_fmt ?E) j \<noteq> CHR ''%'' \<and> cstr_at (e_fmt ?E) j \<noteq> NUL"
  proof (intro allI impI)
    fix j :: nat
    assume "0 < j \<and> j < 2"
    then have "j = 1" by auto
    then show "\<not> is_terminator (cstr_at (e_fmt ?E) j)
              \<and> cstr_at (e_fmt ?E) j \<noteq> CHR ''%'' \<and> cstr_at (e_fmt ?E) j \<noteq> NUL"
      by (auto simp: cstr_at_def is_terminator_def NUL_def)
  qed
  have n: "cstr_at (e_fmt ?E) 2 = CHR ''n''" by (simp add: cstr_at_def)
  have i: "sb_inv (StackBuffer_new ''xyzw'' 4)" by (simp add: sb_inv_def StackBuffer_new_def)
  show ?thesis
    using percent_n_literal [where E = ?E and ts = 0 and i = 2 and iarg = 0
        and out = "StackBuffer_new ''xyzw'' 4" and ab = "replicate 16 fresh_byte", OF h _ n i] e c
    unfolding m
    by simp
qed

text \<open>
  Claim C7, as the code has it. A character inside a specifier that is neither a terminator
  letter nor \<open>%\<close> is accumulated into the specifier: over a run of such characters the
  scanner emits nothing, consumes no argument cell and stays inside the specifier, which
  extends to the next terminator letter or \<open>%\<close>.
\<close>

theorem non_terminator_accumulated:
  assumes "\<forall>j. i \<le> j \<and> j < k \<longrightarrow> \<not> is_terminator (cstr_at (e_fmt E) j)
              \<and> cstr_at (e_fmt E) j \<noteq> CHR ''%'' \<and> cstr_at (e_fmt E) j \<noteq> NUL"
    and "i \<le> k"
  shows "fmt_loop E i (Some ts) iarg out ab = fmt_loop E k (Some ts) iarg out ab"
  using assms by (rule skip_run)

theorem non_terminator_accumulated_witness:
  "fmt_loop \<lparr>e_context = default_context, e_prim = no_primitive, e_fmt = ''%yz5d'', e_nargs = 1,
              e_args = [TI32 5], e_guess = 1\<rparr>
      1 (Some 0) 0 (StackBuffer_new ''xyzw'' 4) (replicate 16 fresh_byte)
    = fmt_loop \<lparr>e_context = default_context, e_prim = no_primitive, e_fmt = ''%yz5d'', e_nargs = 1,
              e_args = [TI32 5], e_guess = 1\<rparr>
      4 (Some 0) 0 (StackBuffer_new ''xyzw'' 4) (replicate 16 fresh_byte)"
proof -
  let ?E = "\<lparr>e_context = default_context, e_prim = no_primitive, e_fmt = ''%yz5d'', e_nargs = 1,
              e_args = [TI32 5], e_guess = 1\<rparr>"
  have "\<forall>j. 1 \<le> j \<and> j < 4 \<longrightarrow> \<not> is_terminator (cstr_at (e_fmt ?E) j)
              \<and> cstr_at (e_fmt ?E) j \<noteq> CHR ''%'' \<and> cstr_at (e_fmt ?E) j \<noteq> NUL"
  proof (intro allI impI)
    fix j :: nat
    assume "1 \<le> j \<and> j < 4"
    then have "j = 1 \<or> j = 2 \<or> j = 3" by auto
    then show "\<not> is_terminator (cstr_at (e_fmt ?E) j)
              \<and> cstr_at (e_fmt ?E) j \<noteq> CHR ''%'' \<and> cstr_at (e_fmt ?E) j \<noteq> NUL"
      by (auto simp: cstr_at_def is_terminator_def NUL_def)
  qed
  then show ?thesis
    using non_terminator_accumulated [where E = ?E and i = 1 and k = 4 and ts = 0 and iarg = 0
        and out = "StackBuffer_new ''xyzw'' 4" and ab = "replicate 16 fresh_byte"]
    by simp
qed

text \<open>
  Claim C7 as stated fails: for the format string \<open>%y\<close> and one argument the output is
  empty, not the literal text \<open>%y\<close>.
\<close>

theorem unrecognized_letter_counterexample:
  "fmt_core default_context no_primitive ''%y'' 1 [TI32 5] = Some (Inr [])"
  by code_simp

text \<open>
  Claim C10. When the format string ends while the scanner is inside a specifier (from the
  \<open>%\<close> at \<open>ts\<close> to the terminating null at \<open>k\<close> there is no terminator letter and no
  further \<open>%\<close>), the loop ends with the output buffer and \<open>iarg\<close> as they were when the
  \<open>%\<close> was met: the bytes from that \<open>%\<close> on are neither formatted nor copied, and no
  argument cell is consumed.
\<close>

theorem unterminated_specifier_omitted:
  assumes "\<forall>j. ts < j \<and> j < k \<longrightarrow> \<not> is_terminator (cstr_at (e_fmt E) j)
              \<and> cstr_at (e_fmt E) j \<noteq> CHR ''%'' \<and> cstr_at (e_fmt E) j \<noteq> NUL"
    and "ts < k" and "cstr_at (e_fmt E) k = NUL"
  shows "fmt_loop E (Suc ts) (Some ts) iarg out ab = Some (Inr (out, iarg))"
proof -
  have "fmt_loop E (Suc ts) (Some ts) iarg out ab = fmt_loop E k (Some ts) iarg out ab"
    using skip_run [of "Suc ts" k E ts iarg out ab] assms(1,2) by simp
  then show ?thesis using at_end [OF assms(3)] by simp
qed

theorem unterminated_specifier_omitted_witness:
  "fmt_loop \<lparr>e_context = default_context, e_prim = no_primitive, e_fmt = ''10%5'', e_nargs = 1,
              e_args = [TI32 5], e_guess = 64\<rparr>
      (Suc 2) (Some 2) 0 \<lparr>Buffer = ''10zw'', Pos = 2, Capacity = 4, OwnBuffer = False\<rparr>
      (replicate 16 fresh_byte)
    = Some (Inr (\<lparr>Buffer = ''10zw'', Pos = 2, Capacity = 4, OwnBuffer = False\<rparr>, 0))
   \<and> fmt_core default_context no_primitive ''100%'' 1 [TI32 5] = Some (Inr ''100'')
   \<and> fmt_core default_context no_primitive ''%5'' 1 [TI32 5] = Some (Inr [])"
proof -
  let ?E = "\<lparr>e_context = default_context, e_prim = no_primitive, e_fmt = ''10%5'', e_nargs = 1,
              e_args = [TI32 5], e_guess = 64\<rparr>"
  have a: "fmt_core default_context no_primitive ''100%'' 1 [TI32 5] = Some (Inr ''100'')"
    by code_simp
  have b: "fmt_core default_context no_primitive ''%5'' 1 [TI32 5] = Some (Inr [])"
    by code_simp
  have h: "\<forall>j. 2 < j \<and> j < 4 \<longrightarrow> \<not> is_terminator (cstr_at (e_fmt ?E) j)
              \<and> cstr_at (e_fmt ?E) j \<noteq> CHR ''%'' \<and> cstr_at (e_fmt ?E) j \<noteq> NUL"
  proof (intro allI impI)
    fix j :: nat
    assume "2 < j \<and> j < 4"
    then have "j = 3" by auto
    then show "\<not> is_terminator (cstr_at (e_fmt ?E) j)
              \<and> cstr_at (e_fmt ?E) j \<noteq> CHR ''%'' \<and> cstr_at (e_fmt ?E) j \<noteq> NUL"
      by (auto simp: cstr_at_def is_terminator_def NUL_def)
  qed
  have k: "cstr_at (e_fmt ?E) 4 = NUL" by (simp add: cstr_at_def)
  show ?thesis
    using unterminated_specifier_omitted [where E = ?E and ts = 2 and k = 4 and iarg = 0
        and out = "\<lparr>Buffer = ''10zw'', Pos = 2, Capacity = 4, OwnBuffer = False\<rparr>"
        and ab = "replicate 16 fresh_byte", OF h _ k] a b
    by simp
qed

section \<open>The scratch array\<close>

lemma argbuf_store_all_ok:
  "p + length cs \<le> argbuf_arraysize \<Longrightarrow> length ab = argbuf_arraysize \<Longrightarrow>
   argbuf_store_all ab p cs = Inr (take p ab @ cs @ drop (p + length cs) ab)"
proof (induction cs arbitrary: ab p)
  case Nil
  then show ?case by simp
next
  case (Cons c cs)
  have p: "p < argbuf_arraysize" using Cons.prems(1) by simp
  have "argbuf_store_all (ab[p := c]) (Suc p) cs
      = Inr (take (Suc p) (ab[p := c]) @ cs @ drop (Suc p + length cs) (ab[p := c]))"
    using Cons.IH [of "Suc p" "ab[p := c]"] Cons.prems by simp
  moreover have "take (Suc p) (ab[p := c]) = take p ab @ [c]"
    using p Cons.prems(2) by (simp add: take_Suc_conv_app_nth)
  ultimately show ?case using p by (simp add: argbuf_store_def)
qed


text \<open>
  Claim C1 at a failing input. The specifier \<open>%0000000000000d\<close> has 14 characters before
  its letter, so it passes the length check (\<open>i - tokenstart = 14 < 15\<close>) and all 14 are
  copied into the scratch array. For a 64-bit cell \<open>fmt_settype\<close> then appends \<open>ll\<close>, the
  letter and the null at positions 14 to 17: the write at position 16 is outside the array
  of 16 bytes.
\<close>

theorem argbuf_overflow_at_long_specifier:
  "fmt_core cx prim ''%0000000000000d'' 1 [TI64 v] = Some (Inl (ArgbufOutOfBounds 16))"
  by code_simp

section \<open>The zero-argument path\<close>

text \<open>
  Claim C2 at a failing input. With no arguments, a format string of length 3 and a region of
  3 bytes, the test \<open>len \<le> staticbuf_size + 1\<close> holds and \<open>memcpy\<close> copies 4 bytes into the
  region of 3.
\<close>

theorem zero_args_overflows_staticbuf:
  "fmt_core_buf cx prim ''abc'' 0 args staticbuf 3 = Some (Inl (StaticbufOverflow 4))"
  by (simp add: fmt_core_buf_def strlen_def NUL_def)

section \<open>The retry loop\<close>

lemma retry_zero:
  assumes "retry_loop cx prim c n arg out ab sz = Some y" and "sz = 0"
  shows "\<exists>e. y = Inl e"
  using assms
proof (induction cx prim c n arg out ab sz y rule: retry_loop.raw_induct [rotated 1, consumes 1])
  case (1 retry cx prim c n arg out ab sz y)
  obtain out1 off where au: "AddUninitialized out 0 = (out1, off)" by (cases "AddUninitialized out 0")
  show ?case
  proof (cases "write_attempt cx prim c ab n arg (take 0 (drop off (Buffer out1))) 0")
    case (Inl e)
    then show ?thesis using "1"(2,3) au by (auto simp: Let_def)
  next
    case (Inr r)
    obtain written outbuf1 ab1 where r: "r = (written, outbuf1, ab1)" by (cases r)
    let ?out2 = "out1\<lparr>Buffer := splice (Buffer out1) off outbuf1\<rparr>"
    have z: "sz = 0" by fact
    have eq: "(case MoveCurrentPos ?out2 0 of
                 None \<Rightarrow> Some (Inl AssertFailed)
               | Some out3 \<Rightarrow> retry cx prim c n arg out3 ab1 0) = Some y"
    proof -
      show ?thesis
        using "1"(2) au Inr r unfolding z
        by (auto simp: Let_def MaxOutputSize_def split: if_splits option.splits)
    qed
    show ?thesis
    proof (cases "MoveCurrentPos ?out2 0")
      case None
      then show ?thesis using eq by auto
    next
      case (Some out3)
      then have "retry cx prim c n arg out3 ab1 0 = Some y" using eq by simp
      then show ?thesis using "1"(1) by simp
    qed
  qed
qed

lemma write_attempt_d_I32:
  assumes "length ab = argbuf_arraysize" and "ab ! 0 = CHR ''%''"
  shows "\<exists>w d. write_attempt cx prim (CHR ''d'') ab 1 (TI32 v) outbuf sz
           = Inr (w, d, take 1 ab @ ''d'' @ [NUL] @ drop 3 ab)"
proof -
  have "fmt_settype ab 1 (Some []) (CHR ''d'') = Inr (take 1 ab @ [CHR ''d'', NUL] @ drop 3 ab)"
    using argbuf_store_all_ok [of 1 "[CHR ''d'', NUL]" ab] assms
    by (simp add: fmt_settype_def argbuf_arraysize_def numeral_3_eq_3)
  then show ?thesis
    by (simp add: write_attempt_def fmt_output_with_snprintf_def with_settype_def split_def Let_def)
qed

lemma retry_zero_d_I32:
  assumes "retry_loop cx prim c n arg out ab sz = Some y"
    and "sz = 0" and "c = CHR ''d''" and "n = 1" and "arg = TI32 v"
    and "length ab = argbuf_arraysize" and "ab ! 0 = CHR ''%''"
  shows False
  using assms
proof (induction cx prim c n arg out ab sz y rule: retry_loop.raw_induct [rotated 1, consumes 1])
  case (1 retry cx prim c n arg out ab sz y)
  obtain out1 off where au: "AddUninitialized out 0 = (out1, off)" by (cases "AddUninitialized out 0")
  have c1: "Pos out1 \<le> Capacity out1" using AddUninitialized_inv [of out 0] au by simp
  let ?ab1 = "take 1 ab @ ''d'' @ [NUL] @ drop 3 ab"
  obtain w d where wa: "write_attempt cx prim (CHR ''d'') ab 1 (TI32 v) [] 0 = Inr (w, d, ?ab1)"
    using write_attempt_d_I32 [OF "1"(7,8)] by blast
  let ?out2 = "out1\<lparr>Buffer := splice (Buffer out1) off d\<rparr>"
  have m: "MoveCurrentPos ?out2 0 = Some ?out2"
    using c1 by (simp add: MoveCurrentPos_def)
  have "retry cx prim c n arg ?out2 ?ab1 0 = Some y"
    using "1"(2) au wa m unfolding "1"(3,4,5,6)
    by (auto simp: Let_def MaxOutputSize_def split: if_splits option.splits)
  moreover have "length ?ab1 = argbuf_arraysize" "?ab1 ! 0 = CHR ''%''"
    using "1"(7,8) by (simp_all add: argbuf_arraysize_def nth_append)
  ultimately show ?case using "1"(1) [of cx prim c n arg ?out2 ?ab1 0 y] "1"(4,5,6) by simp
qed

lemma bulk_copy_stop:
  "cstr_at fmt i = CHR ''%'' \<Longrightarrow> bulk_copy fmt i stopAt out = (i, out)"
  by (subst bulk_copy.simps) simp

text \<open>With a positive initial size the retry loop returns: the size doubles up to the ceiling.\<close>

lemma retry_loop_terminates:
  "0 < sz \<Longrightarrow> \<exists>y. retry_loop cx prim c n arg out ab sz = Some y"
proof (induction "nat MaxOutputSize - sz" arbitrary: sz out ab rule: less_induct)
  case less
  obtain out1 off where au: "AddUninitialized out sz = (out1, off)"
    by (cases "AddUninitialized out sz")
  show ?case
  proof (cases "write_attempt cx prim c ab n arg (take sz (drop off (Buffer out1))) sz")
    case (Inl e)
    then show ?thesis using au by (subst retry_loop.simps) simp
  next
    case (Inr r)
    obtain written outbuf1 ab1 where r: "r = (written, outbuf1, ab1)" by (cases r)
    let ?out2 = "out1\<lparr>Buffer := splice (Buffer out1) off outbuf1\<rparr>"
    show ?thesis
    proof (cases "(0 \<le> written \<and> written < int sz) \<or> MaxOutputSize \<le> int sz")
      case True
      then show ?thesis
        using au Inr r
        by (subst retry_loop.simps) (auto simp: Let_def split: option.splits)
    next
      case False
      then have small: "int sz < MaxOutputSize" by simp
      show ?thesis
      proof (cases "MoveCurrentPos ?out2 (- int sz)")
        case None
        then show ?thesis
          using au Inr r False by (subst retry_loop.simps) (auto simp: Let_def)
      next
        case (Some out3)
        have "nat MaxOutputSize - sz * 2 < nat MaxOutputSize - sz"
          using small less.prems by linarith
        then obtain y where "retry_loop cx prim c n arg out3 ab1 (sz * 2) = Some y"
          using less.hyps [of "sz * 2" out3 ab1] less.prems by auto
        then show ?thesis
          using au Inr r False Some by (subst retry_loop.simps) (auto simp: Let_def)
      qed
    qed
  qed
qed

text \<open>
  Claim C3 at a failing input. With a caller-supplied region of 3 bytes the initial guess is
  \<open>3 >> 2 = 0\<close>; a destination of size 0 never satisfies \<open>written < outputSize\<close>, and
  doubling 0 never reaches the ceiling: the retry loop does not return.
\<close>

theorem small_buffer_retry_diverges:
  "fmt_core_buf cx prim ''%d'' 1 [TI32 v] staticbuf 3 = None"
proof -
  let ?E = "\<lparr>e_context = cx, e_prim = prim, e_fmt = ''%d'', e_nargs = 1, e_args = [TI32 v],
             e_guess = 0\<rparr>"
  let ?out = "StackBuffer_new staticbuf 3"
  let ?ab = "replicate argbuf_arraysize fresh_byte"
  have s1: "fmt_loop ?E 0 None 0 ?out ?ab = fmt_loop ?E (Suc 0) (Some 0) 0 ?out ?ab"
    by (subst fmt_loop.simps) (simp add: cstr_at_def NUL_def bulk_copy_stop)
  have cs: "copy_spec ''%d'' [0..<1] ?ab 0 = Inr (?ab[0 := CHR ''%''], 1)"
    by (simp add: argbuf_store_def argbuf_arraysize_def cstr_at_def)
  have r: "retry_loop cx prim (CHR ''d'') 1 (TI32 v) ?out (?ab[0 := CHR ''%'']) 0 = None"
  proof (cases "retry_loop cx prim (CHR ''d'') 1 (TI32 v) ?out (?ab[0 := CHR ''%'']) 0")
    case (Some y)
    then show ?thesis
      using retry_zero_d_I32 [OF Some, of v] by (simp add: argbuf_arraysize_def)
  qed simp
  have s2: "fmt_loop ?E (Suc 0) (Some 0) 0 ?out ?ab = None"
    using cs r
    by (subst fmt_loop.simps)
      (simp add: cstr_at_def NUL_def is_terminator_def argbuf_arraysize_def Let_def)
  show ?thesis using s1 s2 by (simp add: fmt_core_buf_def Let_def)
qed

section \<open>Decimal formatting\<close>

lemma lut_digit:
  assumes "d < 10"
  shows "lut False ! (35 + d) = digit_char d" and "lut False ! (35 - d) = digit_char d"
proof -
  have "d = 0 \<or> d = 1 \<or> d = 2 \<or> d = 3 \<or> d = 4 \<or> d = 5 \<or> d = 6 \<or> d = 7 \<or> d = 8 \<or> d = 9"
    using assms by arith
  then show "lut False ! (35 + d) = digit_char d"
    by (elim disjE) (simp_all add: lut_def digit_char_def)
  show "lut False ! (35 - d) = digit_char d"
    using \<open>d = 0 \<or> d = 1 \<or> d = 2 \<or> d = 3 \<or> d = 4 \<or> d = 5 \<or> d = 6 \<or> d = 7 \<or> d = 8 \<or> d = 9\<close>
    by (elim disjE) (simp_all add: lut_def digit_char_def)
qed

lemma c_div_nonneg: "0 \<le> a \<Longrightarrow> c_div a 10 = a div 10"
  by (cases "a = 0") (simp_all add: c_div_def)

lemma c_div_neg: "a < 0 \<Longrightarrow> c_div a 10 = - ((- a) div 10)"
  by (simp add: c_div_def)

lemma format_integer_loop_decimal:
  "format_integer_loop 10 False val buf
     = (buf @ rev (decimal_digits (nat \<bar>val\<bar>)), snd (format_integer_loop 10 False val buf))
   \<and> (snd (format_integer_loop 10 False val buf) < 0 \<longleftrightarrow> val < 0)"
proof (induction "nat \<bar>val\<bar>" arbitrary: val buf rule: less_induct)
  case less
  let ?n = "nat \<bar>val\<bar>"
  let ?q = "c_div val 10"
  have q: "nat \<bar>?q\<bar> = ?n div 10"
    by (simp add: abs_c_div nat_div_distrib)
  have r: "nat (35 + (val - ?q * 10)) = (if val < 0 then 35 - ?n mod 10 else 35 + ?n mod 10)"
  proof (cases "val < 0")
    case True
    then have "val - ?q * 10 = - ((- val) mod 10)"
      by (simp add: c_div_neg minus_div_mult_eq_mod [symmetric] algebra_simps)
    moreover have "(- val) mod 10 = int (?n mod 10)" using True by (simp add: zmod_int)
    ultimately have "nat (35 + (val - ?q * 10)) = nat (35 - int (?n mod 10))"
      using True by simp
    also have "\<dots> = 35 - ?n mod 10" by linarith
    finally show ?thesis using True by simp
  next
    case False
    then have "val - ?q * 10 = val mod 10"
      by (simp add: c_div_nonneg minus_div_mult_eq_mod)
    moreover have "val mod 10 = int (?n mod 10)" using False by (simp add: zmod_int)
    ultimately have "nat (35 + (val - ?q * 10)) = nat (35 + int (?n mod 10))"
      using False by simp
    also have "\<dots> = 35 + ?n mod 10" by linarith
    finally show ?thesis using False by simp
  qed
  have d: "lut False ! nat (35 + (val - ?q * 10)) = digit_char (?n mod 10)"
  proof -
    have m: "?n mod 10 < 10" by simp
    show ?thesis unfolding r using lut_digit [OF m] by (cases "val < 0") (simp_all only: if_True if_False)
  qed
  show ?case
  proof (cases "?q = 0")
    case True
    then have small: "?n < 10" using q by (simp add: div_eq_0_iff)
    have "format_integer_loop 10 False val buf = (buf @ [digit_char (?n mod 10)], val)"
      using True d by (subst format_integer_loop.simps) (simp add: Let_def)
    moreover have "decimal_digits ?n = [digit_char (?n mod 10)]"
      using small by (subst decimal_digits.simps) simp
    ultimately show ?thesis by simp
  next
    case False
    then have big: "\<not> ?n < 10" using q by (simp add: div_eq_0_iff)
    have lt: "nat \<bar>?q\<bar> < ?n" using q big by simp
    have sgn: "?q < 0 \<longleftrightarrow> val < 0"
      using False by (auto simp: c_div_def sgn_if split: if_splits)
    let ?buf1 = "buf @ [digit_char (?n mod 10)]"
    have unf: "format_integer_loop 10 False val buf = format_integer_loop 10 False ?q ?buf1"
      using False d by (subst format_integer_loop.simps) (simp add: Let_def)
    have ih: "format_integer_loop 10 False ?q ?buf1
        = (?buf1 @ rev (decimal_digits (nat \<bar>?q\<bar>)), snd (format_integer_loop 10 False ?q ?buf1))
      \<and> (snd (format_integer_loop 10 False ?q ?buf1) < 0 \<longleftrightarrow> ?q < 0)"
      using less [OF lt] .
    have dd: "decimal_digits ?n = decimal_digits (?n div 10) @ [digit_char (?n mod 10)]"
      using big by (subst decimal_digits.simps) simp
    show ?thesis
      unfolding unf using ih sgn q dd by simp
  qed
qed

lemma store_bytes_eq:
  "p + length bs \<le> length d \<Longrightarrow> store_bytes d p bs = take p d @ bs @ drop (p + length bs) d"
proof (induction bs arbitrary: d p)
  case Nil
  then show ?case by simp
next
  case (Cons b bs)
  have p: "p < length d" using Cons.prems by simp
  have "store_bytes (d[p := b]) (Suc p) bs
      = take (Suc p) (d[p := b]) @ bs @ drop (Suc p + length bs) (d[p := b])"
    using Cons.IH [of "Suc p" "d[p := b]"] Cons.prems by simp
  moreover have "take (Suc p) (d[p := b]) = take p d @ [b]"
    using p by (simp add: take_Suc_conv_app_nth)
  ultimately show ?case by simp
qed

lemma format_integer_decimal:
  "format_integer destination 10 False val
     = (int (length (decimal_representation val)),
        store_bytes destination 0 (decimal_representation val))"
proof -
  obtain t where l: "format_integer_loop 10 False val [] = (rev (decimal_digits (nat \<bar>val\<bar>)), t)"
      and s: "t < 0 \<longleftrightarrow> val < 0"
    using format_integer_loop_decimal [of val "[]"] by (metis append_Nil)
  show ?thesis
    using l s by (auto simp: format_integer_def decimal_representation_def Let_def)
qed

lemma decimal_digits_length: "n < 10 ^ k \<Longrightarrow> 0 < k \<Longrightarrow> length (decimal_digits n) \<le> k"
proof (induction k arbitrary: n)
  case 0
  then show ?case by simp
next
  case (Suc k)
  show ?case
  proof (cases "n < 10")
    case True
    then show ?thesis by (subst decimal_digits.simps) simp
  next
    case False
    then have k: "0 < k" using Suc.prems by (cases k) auto
    have "n div 10 < 10 ^ k" using Suc.prems(1) by (simp add: less_mult_imp_div_less mult.commute)
    then have "length (decimal_digits (n div 10)) \<le> k" using Suc.IH k by simp
    then show ?thesis using False by (subst decimal_digits.simps) simp
  qed
qed

lemma decimal_representation_length: "length (decimal_representation (sint (v :: 32 word))) \<le> 11"
proof -
  have b: "- (2 ^ 31) \<le> sint v" "sint v < 2 ^ 31"
    using sint_ge [of v] sint_lt [of v] by simp_all
  have "nat \<bar>sint v\<bar> < 10 ^ 10" using b by simp
  then have "length (decimal_digits (nat \<bar>sint v\<bar>)) \<le> 10"
    using decimal_digits_length [of "nat \<bar>sint v\<bar>" 10] by simp
  then show ?thesis by (auto simp: decimal_representation_def abs_if split: if_splits)
qed

lemma splice_length:
  "off + length region \<le> length buf \<Longrightarrow> length (splice buf off region) = length buf"
  by (simp add: splice_def)

lemma retry_first_attempt:
  assumes inv: "sb_inv out"
    and wa: "write_attempt cx prim c ab n arg (take sz (drop (Pos out) (Buffer (Reserve out sz)))) sz
               = Inr (w, ob, ab1)"
    and w: "0 \<le> w" "w < int sz" and len: "length ob = sz"
  shows "\<exists>out3. retry_loop cx prim c n arg out ab sz = Some (Inr (out3, ab1)) \<and> sb_inv out3
           \<and> contents out3 = contents out @ take (nat w) ob"
proof -
  let ?r = "Reserve out sz"
  have r: "sb_inv ?r" "contents ?r = contents out" "Pos ?r = Pos out" "Pos out + sz \<le> Capacity ?r"
    using inv Reserve_sb_inv Reserve_contents Reserve_room [of out sz] by simp_all
  have lr: "length (Buffer ?r) = Capacity ?r" using r(1) by (simp add: sb_inv_def)
  let ?out1 = "?r\<lparr>Pos := Pos out + sz\<rparr>"
  have au: "AddUninitialized out sz = (?out1, Pos out)"
    by (simp add: AddUninitialized_def Let_def)
  let ?out2 = "?out1\<lparr>Buffer := splice (Buffer ?r) (Pos out) ob\<rparr>"
  let ?out3 = "?out2\<lparr>Pos := Pos out + nat w\<rparr>"
  have e1: "int (Pos ?out2) + (w - int sz) = int (Pos out) + w" by simp
  have e2: "0 \<le> int (Pos out) + w" using w by simp
  have e3: "int (Pos out) + w \<le> int (Capacity ?out2)" using w r(4) by simp
  have e4: "nat (int (Pos out) + w) = Pos out + nat w" using w by linarith
  have m: "MoveCurrentPos ?out2 (w - int sz) = Some ?out3"
    unfolding MoveCurrentPos_def Let_def e1 using e2 e3 e4 by simp
  have eq: "retry_loop cx prim c n arg out ab sz = Some (Inr (?out3, ab1))"
    using au wa w m by (subst retry_loop.simps) (simp add: Let_def)
  have l3: "length (Buffer ?out3) = Capacity ?r"
    using splice_length [of "Pos out" ob "Buffer ?r"] len lr r(4) by simp
  have i3: "sb_inv ?out3"
    using l3 w r(4) by (simp add: sb_inv_def)
  have "contents ?out3 = take (Pos out + nat w) (take (Pos out) (Buffer ?r) @ ob @ drop (Pos out + sz) (Buffer ?r))"
    using len by (simp add: contents_def splice_def)
  also have "\<dots> = take (Pos out) (Buffer ?r) @ take (nat w) ob"
  proof -
    have "nat w \<le> length ob" using w len by linarith
    then show ?thesis using lr r(4) by simp
  qed
  also have "\<dots> = contents out @ take (nat w) ob"
    using r(2,3) by (simp add: contents_def)
  finally show ?thesis using eq i3 by blast
qed

lemma accept_step:
  assumes "is_terminator (cstr_at (e_fmt E) i)"
    and "int iarg < e_nargs E" and "i - ts < argbuf_arraysize - 1"
    and "cstr_at (e_fmt E) i \<noteq> CHR ''n''"
    and "cstr_at (e_fmt E) i = CHR ''q'' \<longrightarrow> Escape_q (e_context E) \<noteq> None"
    and "cstr_at (e_fmt E) i = CHR ''Q'' \<longrightarrow> Escape_Q (e_context E) \<noteq> None"
    and "copy_spec (e_fmt E) [ts..<i] ab 0 = Inr (ab1, n)"
    and "iarg < length (e_args E)"
    and "retry_loop (e_context E) (e_prim E) (cstr_at (e_fmt E) i) n (e_args E ! iarg) out ab1 (e_guess E)
           = Some (Inr (out1, ab2))"
  shows "fmt_loop E i (Some ts) iarg out ab = fmt_loop E (Suc i) None (Suc iarg) out1 ab2"
proof -
  have nz: "cstr_at (e_fmt E) i \<noteq> NUL"
    using assms(1) by (auto simp: is_terminator_def NUL_def)
  have lit: "\<not> (int iarg \<ge> e_nargs E \<or> i - ts \<ge> argbuf_arraysize - 1
      \<or> (cstr_at (e_fmt E) i = CHR ''n''
          \<or> (cstr_at (e_fmt E) i = CHR ''q'' \<and> Escape_q (e_context E) = None)
          \<or> (cstr_at (e_fmt E) i = CHR ''Q'' \<and> Escape_Q (e_context E) = None)))"
    using assms(2-6) by auto
  have a8: "\<not> length (e_args E) \<le> iarg" using assms(8) by simp
  show ?thesis
    by (subst fmt_loop.simps)
      (simp only: nz assms(1,7,9) a8 lit Let_def if_True if_False option.case sum.case prod.case
        bind.bind_lunit)
qed

lemma store_bytes_length [simp]: "length (store_bytes d p bs) = length d"
  by (induction bs arbitrary: d p) simp_all

lemma outbuf_length:
  "sb_inv out \<Longrightarrow> length (take sz (drop (Pos out) (Buffer (Reserve out sz)))) = sz"
  using Reserve_sb_inv [of out sz] Reserve_room [of out sz] by (simp add: sb_inv_def)

lemma write_attempt_d_I32_fast:
  assumes "length ab = argbuf_arraysize" and "ab ! 0 = CHR ''%''" and "11 \<le> sz"
  shows "write_attempt cx prim (CHR ''d'') ab 1 (TI32 v) outbuf sz
           = Inr (int (length (decimal_representation (sint v))),
                  store_bytes outbuf 0 (decimal_representation (sint v)),
                  take 1 ab @ ''d'' @ [NUL] @ drop 3 ab)"
proof -
  let ?ab2 = "take 1 ab @ ''d'' @ [NUL] @ drop 3 ab"
  have st: "fmt_settype ab 1 (Some []) (CHR ''d'') = Inr ?ab2"
    using argbuf_store_all_ok [of 1 "[CHR ''d'', NUL]" ab] assms(1,2)
    by (simp add: fmt_settype_def argbuf_arraysize_def numeral_3_eq_3)
  have "?ab2 ! 1 = CHR ''d''" using assms(1) by (simp add: argbuf_arraysize_def nth_append)
  then have "format_int32 prim outbuf sz ?ab2 v = format_integer outbuf 10 False (sint v)"
    using assms(3) by (simp add: format_int32_def Let_def)
  then show ?thesis
    using st
    by (simp add: write_attempt_def fmt_output_with_snprintf_def with_settype_def
        format_integer_decimal Let_def)
qed

lemma contents_length: "sb_inv sb \<Longrightarrow> length (contents sb) = Pos sb"
  by (simp add: contents_def sb_inv_def)

lemma Add_Pos: "Pos (Add sb c) = Pos sb + 1"
  by (simp add: Add_def AddUninitialized_def Let_def)

lemma fmt_core_buf_from_loop:
  assumes "nargs \<noteq> 0"
    and "fmt_loop \<lparr>e_context = cx, e_prim = prim, e_fmt = fmt, e_nargs = nargs, e_args = args,
                    e_guess = staticbuf_size div 4\<rparr>
           0 None 0 (StackBuffer_new staticbuf staticbuf_size) (replicate argbuf_arraysize fresh_byte)
         = Some (Inr (out', k))"
    and "sb_inv out'"
  shows "\<exists>res. fmt_core_buf cx prim fmt nargs args staticbuf staticbuf_size = Some (Inr res)
           \<and> take (Len res) (Str res) = contents out'"
proof -
  let ?o2 = "Add out' NUL"
  have "take (Pos out') (Buffer ?o2) = take (Pos out') (contents ?o2)"
    by (simp add: contents_def Add_Pos)
  also have "\<dots> = contents out'"
    using Add_contents [OF assms(3), of NUL] contents_length [OF assms(3)] by simp
  finally have t: "take (Pos ?o2 - 1) (Buffer ?o2) = contents out'" by (simp add: Add_Pos)
  show ?thesis
    using assms(1,2) t by (simp add: fmt_core_buf_def Let_def)
qed

lemma fmt_core_buf_percent_d:
  assumes "length staticbuf = staticbuf_size" and "48 \<le> staticbuf_size"
  shows "\<exists>res. fmt_core_buf cx prim ''%d'' 1 [TI32 v] staticbuf staticbuf_size = Some (Inr res)
           \<and> take (Len res) (Str res) = decimal_representation (sint v)"
proof -
  let ?E = "\<lparr>e_context = cx, e_prim = prim, e_fmt = ''%d'', e_nargs = 1, e_args = [TI32 v],
             e_guess = staticbuf_size div 4\<rparr>"
  let ?out = "StackBuffer_new staticbuf staticbuf_size"
  let ?ab = "replicate argbuf_arraysize fresh_byte"
  let ?ab1 = "?ab[0 := CHR ''%'']"
  let ?dec = "decimal_representation (sint v)"
  let ?sz = "staticbuf_size div 4"
  have inv: "sb_inv ?out" using assms(1) by (simp add: sb_inv_def StackBuffer_new_def)
  have c0: "contents ?out = []" by (simp add: contents_def StackBuffer_new_def)
  have sz: "12 \<le> ?sz" using assms(2) by simp
  have dl: "length ?dec \<le> 11" by (rule decimal_representation_length)
  have s1: "fmt_loop ?E 0 None 0 ?out ?ab = fmt_loop ?E (Suc 0) (Some 0) 0 ?out ?ab"
    by (subst fmt_loop.simps) (simp add: cstr_at_def NUL_def bulk_copy_stop)
  have cs: "copy_spec (e_fmt ?E) [0..<Suc 0] ?ab 0 = Inr (?ab1, 1)"
    by (simp add: argbuf_store_def argbuf_arraysize_def cstr_at_def)
  let ?outbuf = "take ?sz (drop (Pos ?out) (Buffer (Reserve ?out ?sz)))"
  let ?ab2 = "take 1 ?ab1 @ ''d'' @ [NUL] @ drop 3 ?ab1"
  have wa: "write_attempt cx prim (CHR ''d'') ?ab1 1 (TI32 v) ?outbuf ?sz
      = Inr (int (length ?dec), store_bytes ?outbuf 0 ?dec, ?ab2)"
    using sz by (intro write_attempt_d_I32_fast) (simp_all add: argbuf_arraysize_def)
  have ol: "length ?outbuf = ?sz" using outbuf_length [OF inv] .
  obtain out3 where r: "retry_loop cx prim (CHR ''d'') 1 (TI32 v) ?out ?ab1 ?sz = Some (Inr (out3, ?ab2))"
      and i3: "sb_inv out3"
      and c3: "contents out3 = contents ?out @ take (nat (int (length ?dec))) (store_bytes ?outbuf 0 ?dec)"
    using retry_first_attempt [OF inv wa] dl sz ol by auto
  have "store_bytes ?outbuf 0 ?dec = ?dec @ drop (length ?dec) ?outbuf"
    using store_bytes_eq [of 0 ?dec ?outbuf] ol dl sz by simp
  then have c3': "contents out3 = ?dec" using c3 c0 by simp
  have c: "cstr_at (e_fmt ?E) (Suc 0) = CHR ''d''" by (simp add: cstr_at_def)
  have t1: "is_terminator (cstr_at (e_fmt ?E) (Suc 0))" unfolding c by (simp add: is_terminator_def)
  have t2: "int 0 < e_nargs ?E" by simp
  have t3: "Suc 0 - 0 < argbuf_arraysize - 1" by (simp add: argbuf_arraysize_def)
  have t4: "cstr_at (e_fmt ?E) (Suc 0) \<noteq> CHR ''n''" unfolding c by simp
  have t5: "cstr_at (e_fmt ?E) (Suc 0) = CHR ''q'' \<longrightarrow> Escape_q (e_context ?E) \<noteq> None"
    unfolding c by simp
  have t6: "cstr_at (e_fmt ?E) (Suc 0) = CHR ''Q'' \<longrightarrow> Escape_Q (e_context ?E) \<noteq> None"
    unfolding c by simp
  have t8: "0 < length (e_args ?E)" by simp
  have t9: "retry_loop (e_context ?E) (e_prim ?E) (cstr_at (e_fmt ?E) (Suc 0)) 1 (e_args ?E ! 0)
              ?out ?ab1 (e_guess ?E) = Some (Inr (out3, ?ab2))"
    unfolding c using r by simp
  have s2: "fmt_loop ?E (Suc 0) (Some 0) 0 ?out ?ab = fmt_loop ?E (Suc (Suc 0)) None (Suc 0) out3 ?ab2"
    by (rule accept_step [OF t1 t2 t3 t4 t5 t6 cs t8 t9])
  have s3: "fmt_loop ?E (Suc (Suc 0)) None (Suc 0) out3 ?ab2 = Some (Inr (out3, Suc 0))"
    by (rule at_end) (simp add: cstr_at_def)
  have "fmt_loop ?E 0 None 0 ?out ?ab = Some (Inr (out3, Suc 0))"
    using s1 s2 s3 by simp
  then show ?thesis
    using fmt_core_buf_from_loop [of 1 cx prim "''%d''" "[TI32 v]" staticbuf_size staticbuf out3 "Suc 0"]
      i3 c3' by simp
qed

lemma decimal_representation_examples:
  "decimal_representation 0 = ''0''"
  "decimal_representation 123 = ''123''"
  "decimal_representation (- 2147483648) = ''-2147483648''"
  by (simp_all add: decimal_representation_def decimal_digits.simps digit_char_def)

text \<open>
  Claim C8. For every 32-bit signed integer \<open>v\<close>, formatting \<open>%d\<close> with the one argument
  \<open>v\<close> (through the entry point that returns a string, with its region of 256 bytes) returns
  the decimal representation of \<open>v\<close>: a \<open>-\<close> and the digits of \<open>|v|\<close> when \<open>v\<close> is
  negative, the digits alone otherwise. The platform primitive is not consulted.
\<close>

theorem format_percent_d_decimal:
  "fmt_core cx prim ''%d'' 1 [TI32 v] = Some (Inr (decimal_representation (sint v)))"
proof -
  obtain res where "fmt_core_buf cx prim ''%d'' 1 [TI32 v] (replicate 256 fresh_byte) 256 = Some (Inr res)"
      and "take (Len res) (Str res) = decimal_representation (sint v)"
    using fmt_core_buf_percent_d [of "replicate 256 fresh_byte" 256 cx prim v] by auto
  then show ?thesis by (simp add: fmt_core_def Let_def)
qed

section \<open>Dispatch on the argument cell\<close>















section \<open>A format string that ends inside a specifier\<close>

text \<open>
  End to end, for one literal run followed by a specifier that is never terminated: with at
  least one argument, the result is the literal run alone.
\<close>

lemma format_literal_then_unterminated:
  assumes na: "nargs \<noteq> 0" and len: "length staticbuf = staticbuf_size"
    and lit: "\<forall>c \<in> set lit. literal_char c"
    and tail: "\<forall>c \<in> set tail. \<not> is_terminator c \<and> c \<noteq> CHR ''%'' \<and> c \<noteq> NUL"
  shows "\<exists>res. fmt_core_buf cx prim (lit @ CHR ''%'' # tail) nargs args staticbuf staticbuf_size
                  = Some (Inr res)
               \<and> take (Len res) (Str res) = lit"
proof -
  let ?fmt = "lit @ CHR ''%'' # tail"
  let ?k = "length lit"
  let ?E = "\<lparr>e_context = cx, e_prim = prim, e_fmt = ?fmt, e_nargs = nargs, e_args = args,
             e_guess = staticbuf_size div 4\<rparr>"
  let ?out = "StackBuffer_new staticbuf staticbuf_size"
  let ?ab = "replicate argbuf_arraysize fresh_byte"
  have inv: "sb_inv ?out" using len by (simp add: sb_inv_def StackBuffer_new_def)
  have c0: "contents ?out = []" by (simp add: contents_def StackBuffer_new_def)
  have at_lit: "cstr_at ?fmt j = lit ! j" if "j < ?k" for j
    using that by (simp add: cstr_at_def nth_append)
  have at_k: "cstr_at ?fmt ?k = CHR ''%''" by (simp add: cstr_at_def nth_append)
  have at_tail: "cstr_at ?fmt j = tail ! (j - Suc ?k)" if "?k < j" "j < length ?fmt" for j
    using that by (simp add: cstr_at_def nth_append nth_Cons')
  have at_end': "cstr_at ?fmt (length ?fmt) = NUL" by (simp add: cstr_at_def)
  have h1: "\<forall>j. 0 \<le> j \<and> j < ?k \<longrightarrow> literal_char (cstr_at (e_fmt ?E) j)"
    using lit at_lit by simp
  have h2: "\<not> literal_char (cstr_at (e_fmt ?E) ?k)" using at_k by (simp add: literal_char_def)
  obtain out' where o: "sb_inv out'"
      "contents out' = contents ?out @ map (cstr_at (e_fmt ?E)) [0..<?k]"
      "fmt_loop ?E 0 None 0 ?out ?ab = fmt_loop ?E (Suc ?k) (Some ?k) 0 out' ?ab"
    using literal_run [OF inv _ h1 h2, of 0 ?ab] at_k by auto
  have "map (cstr_at (e_fmt ?E)) [0..<?k] = map ((!) lit) [0..<?k]"
    using at_lit by simp
  then have c: "contents out' = lit" using o(2) c0 by (simp add: map_nth)
  have h3: "\<forall>j. ?k < j \<and> j < length ?fmt \<longrightarrow> \<not> is_terminator (cstr_at (e_fmt ?E) j)
      \<and> cstr_at (e_fmt ?E) j \<noteq> CHR ''%'' \<and> cstr_at (e_fmt ?E) j \<noteq> NUL"
  proof (intro allI impI)
    fix j
    assume j: "?k < j \<and> j < length ?fmt"
    then have "j - Suc ?k < length tail" by auto
    then have "tail ! (j - Suc ?k) \<in> set tail" by (rule nth_mem)
    then show "\<not> is_terminator (cstr_at (e_fmt ?E) j)
      \<and> cstr_at (e_fmt ?E) j \<noteq> CHR ''%'' \<and> cstr_at (e_fmt ?E) j \<noteq> NUL"
      using tail at_tail j by simp
  qed
  have "fmt_loop ?E (Suc ?k) (Some ?k) 0 out' ?ab = fmt_loop ?E (length ?fmt) (Some ?k) 0 out' ?ab"
    using skip_run [of "Suc ?k" "length ?fmt" ?E ?k 0 out' ?ab] h3 by simp
  also have "\<dots> = Some (Inr (out', 0))"
    using at_end [of ?E "length ?fmt"] at_end' by simp
  finally have "fmt_loop ?E 0 None 0 ?out ?ab = Some (Inr (out', 0))" using o(3) by simp
  then show ?thesis
    using fmt_core_buf_from_loop [OF na _ o(1), of cx prim ?fmt args staticbuf_size staticbuf 0] c
    by simp
qed

end
